theory Spec2Isabelle
  imports Main "HOL-Library.Multiset"
begin

section \<open>Degrees of separation (degrees.py)\<close>

subsection \<open>The graph store\<close>

text \<open>
  Person and movie identifiers are the strings read from the CSV files. The search reads
  only \<^verbatim>\<open>people[id]["movies"]\<close> and \<^verbatim>\<open>movies[id]["stars"]\<close>, so the two dictionaries are
  kept as association lists from an identifier to that set; a lookup of a missing key is
  Python's KeyError. A Python set is kept as the list of its elements.
\<close>

type_synonym person_id = string
type_synonym movie_id = string

record store =
  people :: "(person_id \<times> movie_id list) list"
  movies :: "(movie_id \<times> person_id list) list"

datatype error = KeyError | NoMovies

type_synonym path = "(movie_id option \<times> person_id) list"

type_synonym search_result = "error + path option"

text \<open>
  Python does not fix the order in which a set is iterated. The order in which the set
  built by \<^verbatim>\<open>neighbors_for_person\<close> is traversed is a parameter of the model: a function
  that rearranges the list of the set's elements.
\<close>

type_synonym set_order = "(movie_id \<times> person_id) list \<Rightarrow> (movie_id \<times> person_id) list"

definition iteration_order :: "('a list \<Rightarrow> 'a list) \<Rightarrow> bool" where
  "iteration_order ord = (\<forall>xs. mset (ord xs) = mset xs)"

subsection \<open>Search nodes and the frontier (util.py)\<close>

text \<open>
  Modelled from the spec: the class \<^verbatim>\<open>Node\<close> of util.py, which degrees.py imports. A search
  node is the current person (\<^verbatim>\<open>state\<close>), the movie used to reach it (\<^verbatim>\<open>action\<close>, none for
  the root) and the parent node (none for the root).
\<close>

datatype node = Node (state: person_id) (parent: "node option") (action: "movie_id option")

text \<open>
  Modelled from the spec: the class \<^verbatim>\<open>QueueFrontier\<close> of util.py, a FIFO collection of
  search nodes with a membership check on the person of a node. \<^verbatim>\<open>add\<close> puts a node at
  the end; the loop below takes nodes from the front.
\<close>

type_synonym frontier = "node list"

definition add :: "frontier \<Rightarrow> node \<Rightarrow> frontier" where
  "add fr n = fr @ [n]"

definition contains_state :: "frontier \<Rightarrow> person_id \<Rightarrow> bool" where
  "contains_state fr p = (\<exists>n \<in> set fr. state n = p)"

subsection \<open>neighbors_for_person\<close>

text \<open>
  The nested loops add a pair to the set \<^verbatim>\<open>neighbors\<close> for every star of every movie of
  the person; \<open>star_pairs\<close> collects the pairs, \<open>remdups\<close> makes them a set, and the
  caller iterates over it in the order \<open>ord\<close>.
\<close>

fun star_pairs :: "store \<Rightarrow> movie_id list \<Rightarrow> error + (movie_id \<times> person_id) list" where
  "star_pairs st [] = Inr []"
| "star_pairs st (m # ms) =
     (case map_of (movies st) m of
        None \<Rightarrow> Inl KeyError
      | Some ss \<Rightarrow>
          (case star_pairs st ms of
             Inl e \<Rightarrow> Inl e
           | Inr r \<Rightarrow> Inr (map (Pair m) ss @ r)))"

definition neighbors_for_person ::
    "set_order \<Rightarrow> store \<Rightarrow> person_id \<Rightarrow> error + (movie_id \<times> person_id) list" where
  "neighbors_for_person ord st person =
     (case map_of (people st) person of
        None \<Rightarrow> Inl KeyError
      | Some movie_ids \<Rightarrow>
          (case star_pairs st movie_ids of
             Inl e \<Rightarrow> Inl e
           | Inr r \<Rightarrow> Inr (ord (remdups r))))"

subsection \<open>shortest_path\<close>

text \<open>The two loops that walk from a node up to the root, collecting the path.\<close>

fun path_to_root :: "node \<Rightarrow> path" where
  "path_to_root (Node s par a) =
     (a, s) # (case par of None \<Rightarrow> [] | Some p \<Rightarrow> path_to_root p)"

fun hops_to_root :: "node \<Rightarrow> path" where
  "hops_to_root (Node s par a) =
     (case a of None \<Rightarrow> [] | Some m \<Rightarrow> [(Some m, s)])
       @ (case par of None \<Rightarrow> [] | Some p \<Rightarrow> hops_to_root p)"

text \<open>The final \<^verbatim>\<open>for\<close> loop of the body: the children that enter the frontier.\<close>

fun add_children ::
    "node \<Rightarrow> person_id list \<Rightarrow> movie_id list \<Rightarrow> (movie_id \<times> person_id) list
      \<Rightarrow> frontier \<Rightarrow> frontier" where
  "add_children nd ep em [] fr = fr"
| "add_children nd ep em ((movie, person) # rest) fr =
     add_children nd ep em rest
       (if person \<notin> set ep \<and> movie \<notin> set em \<and> \<not> contains_state fr person
        then add fr (Node person (Some nd) (Some movie))
        else fr)"

text \<open>
  One pass through the body of \<^verbatim>\<open>while True\<close>, for the node just removed from the
  frontier: it returns or raises (\<open>Done\<close>), skips the node (\<open>Skip\<close>, the \<^verbatim>\<open>continue\<close>),
  or expands it and goes on with a new frontier and new explored sets (\<open>Next\<close>).
\<close>

datatype step = Done search_result | Skip | Next frontier "person_id list" "movie_id list"

definition loop_body ::
    "set_order \<Rightarrow> store \<Rightarrow> person_id \<Rightarrow> node \<Rightarrow> frontier \<Rightarrow> person_id list
      \<Rightarrow> movie_id list \<Rightarrow> step" where
  "loop_body ord st target nd fr explored_people explored_movies =
     (let actor = state nd; movie = action nd in
      if actor \<in> set explored_people
         \<and> (case movie of None \<Rightarrow> True | Some m \<Rightarrow> m \<in> set explored_movies)
      then Skip
      else
        let ep = List.insert actor explored_people;
            em = (case movie of None \<Rightarrow> explored_movies
                  | Some m \<Rightarrow> List.insert m explored_movies)
        in
        case (case movie of
                None \<Rightarrow> Inr False
              | Some m \<Rightarrow>
                  (case map_of (movies st) m of
                     None \<Rightarrow> Inl KeyError
                   | Some ss \<Rightarrow> Inr (target \<in> set ss))) of
          Inl e \<Rightarrow> Done (Inl e)
        | Inr True \<Rightarrow> Done (Inr (Some (rev (path_to_root nd))))
        | Inr False \<Rightarrow>
            (case neighbors_for_person ord st actor of
               Inl e \<Rightarrow> Done (Inl e)
             | Inr nb \<Rightarrow>
                 if target \<in> set (map snd nb)
                 then Done (Inr (Some (rev (
                        (case find (\<lambda>(m, p). p = target) nb of
                           None \<Rightarrow> []
                         | Some (m, p) \<Rightarrow> [(Some m, p)])
                        @ hops_to_root nd))))
                 else Next (add_children nd ep em nb fr) ep em))"

text \<open>
  The measure of the loop: the persons and movies of the store that are not yet in the
  explored sets. An expansion that goes on moves a person or a movie of the store into
  them; a skip leaves them as they are and shortens the frontier.
\<close>

definition unexplored :: "store \<Rightarrow> person_id list \<Rightarrow> movie_id list \<Rightarrow> nat" where
  "unexplored st ep em =
     card (fst ` set (people st) - set ep) + card (fst ` set (movies st) - set em)"

lemma neighbors_Inr_dom:
  "neighbors_for_person ord st p = Inr nb \<Longrightarrow> p \<in> fst ` set (people st)"
  by (auto simp: neighbors_for_person_def split: option.splits sum.splits
           dest!: map_of_SomeD intro: rev_image_eqI)

lemma loop_body_Next_decreases:
  assumes "loop_body ord st target nd fr ep em = Next fr' ep' em'"
  shows "unexplored st ep' em' < unexplored st ep em"
proof -
  have ns: "\<not> (state nd \<in> set ep
              \<and> (case action nd of None \<Rightarrow> True | Some m \<Rightarrow> m \<in> set em))"
    using assms by (auto simp: loop_body_def Let_def)
  note body = assms[unfolded loop_body_def Let_def, simplified ns if_False]
  from body obtain nb where nb: "neighbors_for_person ord st (state nd) = Inr nb"
    by (auto split: option.splits sum.splits bool.splits if_splits)
  from body have ep': "ep' = List.insert (state nd) ep"
    by (auto split: option.splits sum.splits bool.splits if_splits)
  from body
  have em': "em' = (case action nd of None \<Rightarrow> em | Some m \<Rightarrow> List.insert m em)"
    by (auto split: option.splits sum.splits bool.splits if_splits)
  from body have mv: "\<And>m. action nd = Some m \<Longrightarrow> m \<in> fst ` set (movies st)"
    by (auto split: option.splits sum.splits bool.splits if_splits
             dest!: map_of_SomeD intro: rev_image_eqI)
  have pin: "state nd \<in> fst ` set (people st)" using nb by (rule neighbors_Inr_dom)
  have fin1: "finite (fst ` set (people st) - set ep)" by simp
  have fin2: "finite (fst ` set (movies st) - set em)" by simp
  have le1: "card (fst ` set (people st) - set ep') \<le> card (fst ` set (people st) - set ep)"
    unfolding ep' by (intro card_mono fin1) auto
  have le2: "card (fst ` set (movies st) - set em') \<le> card (fst ` set (movies st) - set em)"
    unfolding em' by (intro card_mono fin2) (auto split: option.splits)
  show ?thesis
  proof (cases "state nd \<in> set ep")
    case False
    have "card (fst ` set (people st) - set ep') < card (fst ` set (people st) - set ep)"
      unfolding ep' using False pin by (intro psubset_card_mono fin1) auto
    with le2 show ?thesis by (simp add: unexplored_def)
  next
    case True
    with ns obtain m where m: "action nd = Some m" "m \<notin> set em"
      by (auto split: option.splits)
    have "card (fst ` set (movies st) - set em') < card (fst ` set (movies st) - set em)"
      unfolding em' using m mv[OF m(1)] by (intro psubset_card_mono fin2) auto
    with le1 show ?thesis by (simp add: unexplored_def)
  qed
qed

text \<open>
  The loop itself. \<^verbatim>\<open>frontier.empty()\<close> is the test for the empty list and
  \<^verbatim>\<open>frontier.remove()\<close> takes the node at the front, the one added first.
\<close>

function loop ::
    "set_order \<Rightarrow> store \<Rightarrow> person_id \<Rightarrow> frontier \<Rightarrow> person_id list \<Rightarrow> movie_id list
      \<Rightarrow> search_result" where
  "loop ord st target fr explored_people explored_movies =
     (case fr of
        [] \<Rightarrow> Inr None
      | nd # rest \<Rightarrow>
          (case loop_body ord st target nd rest explored_people explored_movies of
             Done r \<Rightarrow> r
           | Skip \<Rightarrow> loop ord st target rest explored_people explored_movies
           | Next fr' ep em \<Rightarrow> loop ord st target fr' ep em))"
  by pat_completeness auto
termination
proof (relation "measures [\<lambda>(ord, st, target, fr, ep, em). unexplored st ep em,
                           \<lambda>(ord, st, target, fr, ep, em). length fr]", goal_cases)
  case 1
  show ?case by simp
next
  case (2 ord st target fr ep em nd rest)
  then show ?case by simp
next
  case (3 ord st target fr ep em nd rest fr' ep' em')
  from loop_body_Next_decreases[OF 3(2)] show ?case by simp
qed

declare loop.simps [simp del]

text \<open>
  \<^verbatim>\<open>shortest_path\<close>: the two tests before the loop, and the loop from the root node for the
  source with both explored sets empty.
\<close>

definition shortest_path :: "set_order \<Rightarrow> store \<Rightarrow> person_id \<Rightarrow> person_id \<Rightarrow> search_result" where
  "shortest_path ord st source target =
     (if source = target then Inr (Some [])
      else
        (case map_of (people st) source of
           None \<Rightarrow> Inl KeyError
         | Some ms \<Rightarrow>
             if ms = [] then Inl NoMovies
             else loop ord st target [Node source None None] [] []))"

text \<open>
  The nodes that the loop expands, in order: the same loop, returning the node of every
  pass that is not skipped. It is used to state how often a person or a movie is
  expanded; \<open>loop\<close> does not depend on it.
\<close>

function expansions ::
    "set_order \<Rightarrow> store \<Rightarrow> person_id \<Rightarrow> frontier \<Rightarrow> person_id list \<Rightarrow> movie_id list
      \<Rightarrow> node list" where
  "expansions ord st target fr explored_people explored_movies =
     (case fr of
        [] \<Rightarrow> []
      | nd # rest \<Rightarrow>
          (case loop_body ord st target nd rest explored_people explored_movies of
             Done r \<Rightarrow> [nd]
           | Skip \<Rightarrow> expansions ord st target rest explored_people explored_movies
           | Next fr' ep em \<Rightarrow> nd # expansions ord st target fr' ep em))"
  by pat_completeness auto
termination
proof (relation "measures [\<lambda>(ord, st, target, fr, ep, em). unexplored st ep em,
                           \<lambda>(ord, st, target, fr, ep, em). length fr]", goal_cases)
  case 1
  show ?case by simp
next
  case (2 ord st target fr ep em nd rest)
  then show ?case by simp
next
  case (3 ord st target fr ep em nd rest fr' ep' em')
  from loop_body_Next_decreases[OF 3(2)] show ?case by simp
qed

declare expansions.simps [simp del]

text \<open>
  The loop with a bound on the number of passes: \<open>None\<close> when the bound is reached
  before the loop has returned. It is used to state within how many passes the loop returns.
\<close>

fun loop_fuel ::
    "nat \<Rightarrow> set_order \<Rightarrow> store \<Rightarrow> person_id \<Rightarrow> frontier \<Rightarrow> person_id list \<Rightarrow> movie_id list
      \<Rightarrow> search_result option" where
  "loop_fuel 0 ord st target fr explored_people explored_movies = None"
| "loop_fuel (Suc n) ord st target fr explored_people explored_movies =
     (case fr of
        [] \<Rightarrow> Some (Inr None)
      | nd # rest \<Rightarrow>
          (case loop_body ord st target nd rest explored_people explored_movies of
             Done r \<Rightarrow> Some r
           | Skip \<Rightarrow> loop_fuel n ord st target rest explored_people explored_movies
           | Next fr' ep em \<Rightarrow> loop_fuel n ord st target fr' ep em))"

subsection \<open>load_data\<close>

text \<open>
  The part of \<^verbatim>\<open>load_data\<close> that fills the two dictionaries, which are empty before. A row
  of people.csv or of movies.csv is kept as its id: name, birth, title and year are not
  read by the search, and the table of names only resolves the names typed by the user.
  A row of stars.csv is its pair of ids. Assigning to a key replaces the entry of the key
  or appends one; adding to a set leaves a set that has the element as it is.
\<close>

fun assign :: "'k \<Rightarrow> 'v \<Rightarrow> ('k \<times> 'v) list \<Rightarrow> ('k \<times> 'v) list" where
  "assign k v [] = [(k, v)]"
| "assign k v ((k', v') # kvs) =
     (if k' = k then (k, v) # kvs else (k', v') # assign k v kvs)"

definition set_add :: "'a \<Rightarrow> 'a list \<Rightarrow> 'a list" where
  "set_add x xs = (if x \<in> set xs then xs else xs @ [x])"

text \<open>
  One row of stars.csv, lines 49 to 53. A KeyError of either statement of the \<^verbatim>\<open>try\<close>
  block ends the row and is dropped by \<^verbatim>\<open>except KeyError: pass\<close>. When line 50 raises
  nothing has changed; when line 51 raises, line 50 has already added the movie to the
  set of the person.
\<close>

definition load_star :: "store \<Rightarrow> person_id \<times> movie_id \<Rightarrow> store" where
  "load_star st row =
     (case row of (person_id, movie_id) \<Rightarrow>
        (case map_of (people st) person_id of
           None \<Rightarrow> st
         | Some ms \<Rightarrow>
             (let st' = st\<lparr>people := assign person_id (set_add movie_id ms) (people st)\<rparr> in
                (case map_of (movies st') movie_id of
                   None \<Rightarrow> st'
                 | Some ss \<Rightarrow>
                     st'\<lparr>movies := assign movie_id (set_add person_id ss) (movies st')\<rparr>))))"

definition load_data ::
    "person_id list \<Rightarrow> movie_id list \<Rightarrow> (person_id \<times> movie_id) list \<Rightarrow> store" where
  "load_data people_rows movie_rows star_rows =
     foldl load_star
       \<lparr>people = foldl (\<lambda>d p. assign p [] d) [] people_rows,
        movies = foldl (\<lambda>d m. assign m [] d) [] movie_rows\<rparr>
       star_rows"

subsection \<open>The graph behind the store\<close>

text \<open>
  The graph invariant of the store: the starred-in relation is the same in both
  dictionaries, and no edge names an identifier that the other dictionary lacks.
\<close>

definition graph_invariant :: "store \<Rightarrow> bool" where
  "graph_invariant st =
     ((\<forall>(p, ms) \<in> set (people st). \<forall>m \<in> set ms.
         (case map_of (movies st) m of None \<Rightarrow> False | Some ss \<Rightarrow> p \<in> set ss))
      \<and> (\<forall>(m, ss) \<in> set (movies st). \<forall>p \<in> set ss.
         (case map_of (people st) p of None \<Rightarrow> False | Some ms \<Rightarrow> m \<in> set ms)))"

text \<open>
  One half of the graph invariant: every person is in the star set of each of their
  movies that the movie table has. It does not ask that the movie table has the movie.
\<close>

definition people_billed :: "store \<Rightarrow> bool" where
  "people_billed st =
     (\<forall>(p, ms) \<in> set (people st). \<forall>m \<in> set ms.
         (case map_of (movies st) m of None \<Rightarrow> True | Some ss \<Rightarrow> p \<in> set ss))"

text \<open>
  Person \<open>p\<close> and person \<open>q\<close> both star in movie \<open>m\<close>; a sequence of hops is a valid
  alternating path from \<open>src\<close> to \<open>tgt\<close> when every hop names a movie in which the person
  reached so far and the person of the hop both star, and the last person is \<open>tgt\<close>.
  \<open>hop_ok\<close> says the same of the hop at one index.
\<close>

definition costar :: "store \<Rightarrow> person_id \<Rightarrow> movie_id \<Rightarrow> person_id \<Rightarrow> bool" where
  "costar st p m q =
     (case map_of (movies st) m of None \<Rightarrow> False | Some ss \<Rightarrow> p \<in> set ss \<and> q \<in> set ss)"

fun valid_path :: "store \<Rightarrow> person_id \<Rightarrow> path \<Rightarrow> person_id \<Rightarrow> bool" where
  "valid_path st src [] tgt = (src = tgt)"
| "valid_path st src ((mo, p) # rest) tgt =
     ((case mo of None \<Rightarrow> False | Some m \<Rightarrow> costar st src m p) \<and> valid_path st p rest tgt)"

definition hop_ok :: "store \<Rightarrow> person_id \<Rightarrow> path \<Rightarrow> nat \<Rightarrow> bool" where
  "hop_ok st src pth i =
     (case fst (pth ! i) of
        None \<Rightarrow> False
      | Some m \<Rightarrow>
          (case map_of (movies st) m of
             None \<Rightarrow> False
           | Some ss \<Rightarrow>
               (if i = 0 then src else snd (pth ! (i - 1))) \<in> set ss \<and> snd (pth ! i) \<in> set ss))"

text \<open>
  The person-costar graph: two distinct persons are adjacent when some movie of the store
  stars both. The distance between two persons is the length of a shortest walk; a set of
  persons that contains all stars of every movie it touches is a union of components.
\<close>

definition costars :: "store \<Rightarrow> person_id \<Rightarrow> person_id \<Rightarrow> bool" where
  "costars st p q \<longleftrightarrow> p \<noteq> q \<and> (\<exists>m \<in> fst ` set (movies st). costar st p m q)"

fun walk :: "store \<Rightarrow> person_id \<Rightarrow> person_id list \<Rightarrow> person_id \<Rightarrow> bool" where
  "walk st p [] q = (p = q)"
| "walk st p (x # xs) q = (costars st p x \<and> walk st x xs q)"

definition connected :: "store \<Rightarrow> person_id \<Rightarrow> person_id \<Rightarrow> bool" where
  "connected st p q = (\<exists>w. walk st p w q)"

definition distance :: "store \<Rightarrow> person_id \<Rightarrow> person_id \<Rightarrow> nat" where
  "distance st p q = (LEAST k. \<exists>xs. walk st p xs q \<and> length xs = k)"

definition component :: "store \<Rightarrow> person_id list \<Rightarrow> bool" where
  "component st ps =
     (\<forall>(m, ss) \<in> set (movies st). (\<exists>x \<in> set ss. x \<in> set ps) \<longrightarrow> set ss \<subseteq> set ps)"

subsection \<open>The invariant of the search loop\<close>

text \<open>
  A node of the search tree is well formed when its chain of parents ends in the root for
  the source and every node on it was reached from its parent through a movie they share.
\<close>

fun node_ok :: "store \<Rightarrow> person_id \<Rightarrow> node \<Rightarrow> bool" where
  "node_ok st src (Node s par a) =
     (case par of
        None \<Rightarrow> a = None \<and> s = src
      | Some p \<Rightarrow>
          (case a of None \<Rightarrow> False | Some m \<Rightarrow> costar st (state p) m s) \<and> node_ok st src p)"

fun depth :: "node \<Rightarrow> nat" where
  "depth (Node s par a) = (case par of None \<Rightarrow> 0 | Some p \<Rightarrow> Suc (depth p))"

definition discovered :: "frontier \<Rightarrow> person_id list \<Rightarrow> person_id set" where
  "discovered fr ep = set ep \<union> state ` set fr"

text \<open>
  What the loop needs to return only valid paths: every frontier node is well formed and
  the target stars in the incoming movie of none of them.
\<close>

definition frontier_paths :: "store \<Rightarrow> person_id \<Rightarrow> person_id \<Rightarrow> frontier \<Rightarrow> bool" where
  "frontier_paths st src tgt fr =
     (\<forall>n \<in> set fr. node_ok st src n \<and> (\<forall>m p. action n = Some m \<longrightarrow> \<not> costar st p m tgt))"

text \<open>
  The invariant at the head of \<^verbatim>\<open>while True\<close>: the frontier holds well-formed nodes of
  known persons, pairwise distinct and none explored, in order of depth with at most two
  depths present; the target is not discovered; all co-stars of an explored person, and all
  stars of an explored movie or of the incoming movie of a frontier node, are discovered;
  and no path of the graph reaches a frontier person in fewer hops than the node's depth.
\<close>

definition search_inv ::
    "store \<Rightarrow> person_id \<Rightarrow> person_id \<Rightarrow> frontier \<Rightarrow> person_id list \<Rightarrow> movie_id list \<Rightarrow> bool" where
  "search_inv st src tgt fr ep em \<longleftrightarrow>
     (\<forall>n \<in> set fr. node_ok st src n)
   \<and> (\<forall>n \<in> set fr. map_of (people st) (state n) \<noteq> None)
   \<and> src \<in> discovered fr ep
   \<and> tgt \<notin> discovered fr ep
   \<and> distinct (map state fr)
   \<and> set ep \<inter> state ` set fr = {}
   \<and> sorted (map depth fr)
   \<and> (\<forall>n \<in> set fr. depth n \<le> Suc (depth (hd fr)))
   \<and> (\<forall>p \<in> set ep. \<forall>m q. costar st p m q \<longrightarrow> q \<in> discovered fr ep)
   \<and> (\<forall>m \<in> set em. \<forall>p q. costar st p m q \<longrightarrow> q \<in> discovered fr ep)
   \<and> (\<forall>n \<in> set fr. \<forall>m. action n = Some m \<longrightarrow>
         map_of (movies st) m \<noteq> None \<and> (\<forall>p. \<not> costar st p m tgt)
         \<and> (\<forall>p q. costar st p m q \<longrightarrow> q \<in> discovered fr ep))
   \<and> (\<forall>n \<in> set fr. \<forall>q. valid_path st src q (state n) \<longrightarrow> depth n \<le> length q)"

definition expands ::
    "store \<Rightarrow> person_id \<Rightarrow> node \<Rightarrow> frontier \<Rightarrow> person_id list \<Rightarrow> movie_id list
      \<Rightarrow> frontier \<Rightarrow> person_id list \<Rightarrow> movie_id list \<Rightarrow> bool" where
  "expands st tgt nd rest ep em fr' ep' em' \<longleftrightarrow>
     set ep' = insert (state nd) (set ep)
   \<and> set em' = set em \<union> set_option (action nd)
   \<and> (\<forall>m. \<not> costar st (state nd) m tgt)
   \<and> (\<exists>cs. fr' = rest @ cs
        \<and> (\<forall>c \<in> set cs. \<exists>m p. c = Node p (Some nd) (Some m) \<and> costar st (state nd) m p
              \<and> p \<notin> set ep' \<and> m \<notin> set em' \<and> p \<notin> state ` set rest)
        \<and> distinct (map state cs)
        \<and> (\<forall>m p. costar st (state nd) m p \<longrightarrow> p \<notin> set ep' \<longrightarrow> m \<notin> set em'
              \<longrightarrow> p \<in> state ` set (rest @ cs)))"

definition search_post :: "store \<Rightarrow> person_id \<Rightarrow> person_id \<Rightarrow> search_result \<Rightarrow> bool" where
  "search_post st src tgt r =
     (case r of
        Inl e \<Rightarrow> False
      | Inr None \<Rightarrow> \<not> (\<exists>q. valid_path st src q tgt)
      | Inr (Some path) \<Rightarrow>
          valid_path st src path tgt \<and> (\<forall>q. valid_path st src q tgt \<longrightarrow> length path \<le> length q))"

subsection \<open>Example stores\<close>

definition st_pair :: store where
  "st_pair = \<lparr>people = [(''A'', [''M'']), (''B'', [''M''])],
              movies = [(''M'', [''A'', ''B''])]\<rparr>"

definition st_loner :: store where
  "st_loner = \<lparr>people = [(''A'', []), (''B'', [''M'']), (''C'', [''M''])],
               movies = [(''M'', [''B'', ''C''])]\<rparr>"

definition st_chain :: store where
  "st_chain = \<lparr>people = [(''A'', [''M1'']), (''B'', [''M1'', ''M2'']), (''C'', [''M1'']),
                         (''D'', [''M2'']), (''Y'', [''N'']), (''Z'', [''N''])],
               movies = [(''M1'', [''A'', ''B'', ''C'']), (''M2'', [''B'', ''D'']),
                         (''N'', [''Y'', ''Z''])]\<rparr>"

definition st_dangling :: store where
  "st_dangling = \<lparr>people = [(''A'', [''M'', ''N'']), (''B'', [''M''])],
                  movies = [(''M'', [''A'', ''B''])]\<rparr>"

definition st_apart :: store where
  "st_apart = \<lparr>people = [(''A'', [''M'', ''N'']), (''B'', [''M'']), (''Z'', [''K''])],
              movies = [(''M'', [''A'', ''B'']), (''K'', [''Z''])]\<rparr>"

section \<open>Tic-tac-toe (tictactoe.py)\<close>

subsection \<open>The board\<close>

text \<open>
  A board is the 3 by 3 grid that \<^verbatim>\<open>initial_state\<close> builds and \<^verbatim>\<open>result\<close> preserves: three
  rows of three cells, a cell being empty (\<open>None\<close>, Python's \<^verbatim>\<open>EMPTY\<close>) or holding a mark.
  The type has no other shapes, so no index of the code can leave the grid once it is
  known to lie in \<^verbatim>\<open>range(3)\<close>. The second mark is written \<open>O'\<close>, \<open>O\<close> being the
  composition of relations in HOL. An action is a pair of Python integers.
\<close>

datatype mark = X | O'

type_synonym cell = "mark option"

type_synonym row = "cell \<times> cell \<times> cell"

type_synonym board = "row \<times> row \<times> row"

type_synonym action = "int \<times> int"

text \<open>
  \<^verbatim>\<open>actions\<close> returns a set, and the loops of the search iterate over it in an order that
  Python does not fix: that order is a parameter of the search.
\<close>

type_synonym action_order = "action list \<Rightarrow> action list"

datatype board_error = InvalidAction

definition initial_state :: board where
  "initial_state = ((None, None, None), (None, None, None), (None, None, None))"

fun row_cells :: "row \<Rightarrow> cell list" where
  "row_cells (a, b, c) = [a, b, c]"

fun cells :: "board \<Rightarrow> cell list" where
  "cells (r0, r1, r2) = row_cells r0 @ row_cells r1 @ row_cells r2"

text \<open>
  \<^verbatim>\<open>board[i][j]\<close> for indices known to be 0, 1 or 2, and the board with one cell replaced.
\<close>

fun get_cell :: "row \<Rightarrow> int \<Rightarrow> cell" where
  "get_cell (a, b, c) j = (if j = 0 then a else if j = 1 then b else c)"

fun get_row :: "board \<Rightarrow> int \<Rightarrow> row" where
  "get_row (r0, r1, r2) i = (if i = 0 then r0 else if i = 1 then r1 else r2)"

fun set_cell :: "row \<Rightarrow> int \<Rightarrow> cell \<Rightarrow> row" where
  "set_cell (a, b, c) j v = (if j = 0 then (v, b, c) else if j = 1 then (a, v, c) else (a, b, v))"

fun set_row :: "board \<Rightarrow> int \<Rightarrow> row \<Rightarrow> board" where
  "set_row (r0, r1, r2) i r = (if i = 0 then (r, r1, r2) else if i = 1 then (r0, r, r2) else (r0, r1, r))"

definition cell_at :: "board \<Rightarrow> int \<Rightarrow> int \<Rightarrow> cell" where
  "cell_at b i j = get_cell (get_row b i) j"

text \<open>
  The functions of the board model. \<^verbatim>\<open>actions\<close> lists the empty cells in the order of
  its comprehension; the set made of them is iterated in the order the search is given.
  \<^verbatim>\<open>result\<close> raises \<^verbatim>\<open>ValueError("Invalid action")\<close>, the value \<open>InvalidAction\<close>.
  \<^verbatim>\<open>winner\<close> tests the three rows, then the three columns, then the two diagonals, a
  line counting when \<^verbatim>\<open>x == y == z != EMPTY\<close>.
\<close>

definition player :: "board \<Rightarrow> mark" where
  "player b =
     (let count_x = count_list (cells b) (Some X); count_o = count_list (cells b) (Some O')
      in if count_x > count_o then O' else X)"

definition actions :: "board \<Rightarrow> action list" where
  "actions b = [(i, j). i \<leftarrow> [0, 1, 2], j \<leftarrow> [0, 1, 2], cell_at b i j = None]"

definition result :: "board \<Rightarrow> action \<Rightarrow> board_error + board" where
  "result b a =
     (case a of (i, j) \<Rightarrow>
        if i < 0 \<or> i \<ge> 3 \<or> j < 0 \<or> j \<ge> 3 \<or> cell_at b i j \<noteq> None
        then Inl InvalidAction
        else Inr (set_row b i (set_cell (get_row b i) j (Some (player b)))))"

definition three :: "cell \<Rightarrow> cell \<Rightarrow> cell \<Rightarrow> bool" where
  "three a b c = (a = b \<and> b = c \<and> c \<noteq> None)"

fun winner :: "board \<Rightarrow> cell" where
  "winner ((a, b, c), (d, e, f), (g, h, i)) =
     (if three a b c then a
      else if three d e f then d
      else if three g h i then g
      else if three a d g then a
      else if three b e h then b
      else if three c f i then c
      else if three a e i then a
      else if three c e g then c
      else None)"

definition terminal :: "board \<Rightarrow> bool" where
  "terminal b = (winner b \<noteq> None \<or> list_all (\<lambda>c. c \<noteq> None) (cells b))"

definition utility :: "board \<Rightarrow> int" where
  "utility b = (if winner b = Some X then 1 else if winner b = Some O' then -1 else 0)"

subsection \<open>result on a heap of row objects\<close>

text \<open>
  \<^verbatim>\<open>result\<close> copies every row of its argument and then assigns into one of the copies.
  Whether the argument is left alone depends on the copies being new objects, so the
  function is also modelled on a heap: a row is an object at an address, a board is the
  three addresses of its rows, a copy is a new object at the end of the heap, and the
  assignment \<^verbatim>\<open>new_board[i][j] = player(board)\<close> updates the object at the address of row
  \<open>i\<close> of the new board. The heap after the call is returned in both outcomes.
\<close>

type_synonym address = nat

type_synonym heap = "row list"

type_synonym board_ref = "address \<times> address \<times> address"

fun deref :: "heap \<Rightarrow> board_ref \<Rightarrow> board" where
  "deref h (a0, a1, a2) = (h ! a0, h ! a1, h ! a2)"

fun allocated :: "heap \<Rightarrow> board_ref \<Rightarrow> bool" where
  "allocated h (a0, a1, a2) = (a0 < length h \<and> a1 < length h \<and> a2 < length h)"

fun row_address :: "board_ref \<Rightarrow> int \<Rightarrow> address" where
  "row_address (a0, a1, a2) i = (if i = 0 then a0 else if i = 1 then a1 else a2)"

definition result_on_heap ::
    "heap \<Rightarrow> board_ref \<Rightarrow> action \<Rightarrow> heap \<times> (board_error + board_ref)" where
  "result_on_heap h board a =
     (case a of (i, j) \<Rightarrow>
        if i < 0 \<or> i \<ge> 3 \<or> j < 0 \<or> j \<ge> 3 \<or> cell_at (deref h board) i j \<noteq> None
        then (h, Inl InvalidAction)
        else
          let n = length h;
              h1 = h @ [get_row (deref h board) 0, get_row (deref h board) 1,
                        get_row (deref h board) 2];
              new_board = (n, Suc n, Suc (Suc n));
              target = row_address new_board i
          in (h1[target := set_cell (h1 ! target) j (Some (player (deref h1 board)))],
              Inr new_board))"

subsection \<open>Scores\<close>

text \<open>
  The values compared by the search: the integers returned by \<^verbatim>\<open>utility\<close> and Python's
  \<^verbatim>\<open>float('-inf')\<close> and \<^verbatim>\<open>float('inf')\<close>, in their usual order.
\<close>

datatype score = NegInf | Fin int | PosInf

instantiation score :: linorder
begin

fun less_eq_score :: "score \<Rightarrow> score \<Rightarrow> bool" where
  "less_eq_score NegInf _ = True"
| "less_eq_score _ PosInf = True"
| "less_eq_score (Fin a) (Fin b) = (a \<le> b)"
| "less_eq_score _ _ = False"

definition less_score :: "score \<Rightarrow> score \<Rightarrow> bool" where
  "less_score a b = (a \<le> b \<and> \<not> b \<le> a)"

instance
proof
  fix x y z :: score
  show "(x < y) = (x \<le> y \<and> \<not> y \<le> x)" by (simp add: less_score_def)
  show "x \<le> x" by (cases x) auto
  show "x \<le> y \<Longrightarrow> y \<le> z \<Longrightarrow> x \<le> z" by (cases x; cases y; cases z) auto
  show "x \<le> y \<Longrightarrow> y \<le> x \<Longrightarrow> x = y" by (cases x; cases y) auto
  show "x \<le> y \<or> y \<le> x" by (cases x; cases y) auto
qed

end

subsection \<open>max_value, min_value and minimax\<close>

text \<open>
  A successful \<^verbatim>\<open>result\<close> fills one empty cell; the number of empty cells is the measure
  of the recursion of the search.
\<close>

definition empties :: "board \<Rightarrow> nat" where
  "empties b = count_list (cells b) None"

lemma count_list_update:
  "k < length xs \<Longrightarrow>
     count_list (xs[k := v]) y + (if xs ! k = y then 1 else 0)
       = count_list xs y + (if v = y then 1 else 0)"
proof (induction xs arbitrary: k)
  case Nil
  then show ?case by simp
next
  case (Cons x xs)
  show ?case
  proof (cases k)
    case 0
    then show ?thesis by simp
  next
    case (Suc n)
    with Cons.prems have "n < length xs" by simp
    from Cons.IH[OF this] Suc show ?thesis by (auto split: if_splits)
  qed
qed

lemma length_cells: "length (cells b) = 9"
  by (cases b rule: prod_cases3; cases "fst b" rule: prod_cases3;
      cases "fst (snd b)" rule: prod_cases3; cases "snd (snd b)" rule: prod_cases3) simp

definition in_range :: "int \<Rightarrow> bool" where
  "in_range i = (i = 0 \<or> i = 1 \<or> i = 2)"

lemma in_range_iff: "in_range i \<longleftrightarrow> \<not> (i < 0 \<or> i \<ge> 3)"
  by (auto simp: in_range_def)

lemma cell_at_nth:
  assumes "in_range i" "in_range j"
  shows "cell_at b i j = cells b ! nat (3 * i + j)"
proof -
  obtain a0 a1 a2 b0 b1 b2 c0 c1 c2 where b: "b = ((a0, a1, a2), (b0, b1, b2), (c0, c1, c2))"
    by (metis prod_cases3)
  from assms show ?thesis
    unfolding in_range_def b cell_at_def by (elim disjE) simp_all
qed

lemma cells_set:
  assumes "in_range i" "in_range j"
  shows "cells (set_row b i (set_cell (get_row b i) j v)) = (cells b)[nat (3 * i + j) := v]"
proof -
  obtain a0 a1 a2 b0 b1 b2 c0 c1 c2 where b: "b = ((a0, a1, a2), (b0, b1, b2), (c0, c1, c2))"
    by (metis prod_cases3)
  from assms show ?thesis
    unfolding in_range_def b by (elim disjE) simp_all
qed

lemma index_bound: "in_range i \<Longrightarrow> in_range j \<Longrightarrow> nat (3 * i + j) < 9"
  unfolding in_range_def by (elim disjE) simp_all

lemma result_Inr:
  "result b (i, j) = Inr b' \<longleftrightarrow>
     in_range i \<and> in_range j \<and> cell_at b i j = None
     \<and> b' = set_row b i (set_cell (get_row b i) j (Some (player b)))"
  by (auto simp: result_def in_range_iff)

lemma result_cells:
  assumes "result b (i, j) = Inr b'"
  shows "cells b' = (cells b)[nat (3 * i + j) := Some (player b)]
         \<and> nat (3 * i + j) < 9 \<and> cells b ! nat (3 * i + j) = None"
  using assms cells_set[of i j b] cell_at_nth[of i j b] index_bound[of i j]
  by (simp add: result_Inr)

lemma result_count:
  assumes "result b (i, j) = Inr b'"
  shows "count_list (cells b') y + (if y = None then 1 else 0)
         = count_list (cells b) y + (if y = Some (player b) then 1 else 0)"
proof -
  from result_cells[OF assms] have c: "cells b' = (cells b)[nat (3 * i + j) := Some (player b)]"
    and k: "nat (3 * i + j) < length (cells b)" and e: "cells b ! nat (3 * i + j) = None"
    by (simp_all add: length_cells)
  from count_list_update[OF k, of "Some (player b)" y] e show ?thesis
    unfolding c by (auto split: if_splits)
qed

lemma result_empties:
  assumes "result b a = Inr b'"
  shows "empties b' < empties b"
proof -
  obtain i j where a: "a = (i, j)" by (cases a)
  from result_count[OF assms[unfolded a], of None] show ?thesis
    by (simp add: empties_def)
qed

text \<open>
  The two value functions, each with the \<^verbatim>\<open>for\<close> loop of its body as a function over
  the actions still to be tried, carrying \<open>v\<close> and the two bounds. A \<^verbatim>\<open>break\<close> returns
  \<open>v\<close> at once. An error of \<^verbatim>\<open>result\<close> propagates, as the exception would.
\<close>

function max_value :: "action_order \<Rightarrow> board \<Rightarrow> score \<Rightarrow> score \<Rightarrow> board_error + score"
  and max_loop ::
    "action_order \<Rightarrow> board \<Rightarrow> action list \<Rightarrow> score \<Rightarrow> score \<Rightarrow> score \<Rightarrow> board_error + score"
  and min_value :: "action_order \<Rightarrow> board \<Rightarrow> score \<Rightarrow> score \<Rightarrow> board_error + score"
  and min_loop ::
    "action_order \<Rightarrow> board \<Rightarrow> action list \<Rightarrow> score \<Rightarrow> score \<Rightarrow> score \<Rightarrow> board_error + score"
where
  "max_value ord b no_less_than no_more_than =
     (if terminal b then Inr (Fin (utility b))
      else max_loop ord b (ord (actions b)) NegInf no_less_than no_more_than)"
| "max_loop ord b [] v no_less_than no_more_than = Inr v"
| "max_loop ord b (a # as) v no_less_than no_more_than =
     (case result b a of
        Inl e \<Rightarrow> Inl e
      | Inr b' \<Rightarrow>
          (case min_value ord b' no_less_than no_more_than of
             Inl e \<Rightarrow> Inl e
           | Inr s \<Rightarrow>
               (let v' = max v s; nlt = max no_less_than v'
                in if v' \<ge> no_more_than then Inr v'
                   else max_loop ord b as v' nlt no_more_than)))"
| "min_value ord b no_less_than no_more_than =
     (if terminal b then Inr (Fin (utility b))
      else min_loop ord b (ord (actions b)) PosInf no_less_than no_more_than)"
| "min_loop ord b [] v no_less_than no_more_than = Inr v"
| "min_loop ord b (a # as) v no_less_than no_more_than =
     (case result b a of
        Inl e \<Rightarrow> Inl e
      | Inr b' \<Rightarrow>
          (case max_value ord b' no_less_than no_more_than of
             Inl e \<Rightarrow> Inl e
           | Inr s \<Rightarrow>
               (let v' = min v s; nmt = min no_more_than v'
                in if v' \<le> no_less_than then Inr v'
                   else min_loop ord b as v' no_less_than nmt)))"
  by pat_completeness auto
termination
  apply (relation "measures [
     (\<lambda>x. case x of
        Inl (Inl (ord, b, l, m)) \<Rightarrow> empties b
      | Inl (Inr (ord, b, as, v, l, m)) \<Rightarrow> empties b
      | Inr (Inl (ord, b, l, m)) \<Rightarrow> empties b
      | Inr (Inr (ord, b, as, v, l, m)) \<Rightarrow> empties b),
     (\<lambda>x. case x of
        Inl (Inl (ord, b, l, m)) \<Rightarrow> 1
      | Inl (Inr (ord, b, as, v, l, m)) \<Rightarrow> 0
      | Inr (Inl (ord, b, l, m)) \<Rightarrow> 1
      | Inr (Inr (ord, b, as, v, l, m)) \<Rightarrow> 0),
     (\<lambda>x. case x of
        Inl (Inl (ord, b, l, m)) \<Rightarrow> 0
      | Inl (Inr (ord, b, as, v, l, m)) \<Rightarrow> length as
      | Inr (Inl (ord, b, l, m)) \<Rightarrow> 0
      | Inr (Inr (ord, b, as, v, l, m)) \<Rightarrow> length as)]")
  apply (auto dest: result_empties)
  done

declare max_value.simps [simp del] min_value.simps [simp del]

text \<open>The two loops of \<^verbatim>\<open>minimax\<close>, carrying the best score, the best move and the bound.\<close>

fun max_root ::
    "action_order \<Rightarrow> board \<Rightarrow> action list \<Rightarrow> score \<Rightarrow> action option \<Rightarrow> score
      \<Rightarrow> board_error + action option" where
  "max_root ord b [] best_score best_move no_less_than = Inr best_move"
| "max_root ord b (a # as) best_score best_move no_less_than =
     (case result b a of
        Inl e \<Rightarrow> Inl e
      | Inr b' \<Rightarrow>
          (case min_value ord b' no_less_than PosInf of
             Inl e \<Rightarrow> Inl e
           | Inr s \<Rightarrow>
               if s > best_score
               then max_root ord b as s (Some a) (max no_less_than s)
               else max_root ord b as best_score best_move no_less_than))"

fun min_root ::
    "action_order \<Rightarrow> board \<Rightarrow> action list \<Rightarrow> score \<Rightarrow> action option \<Rightarrow> score
      \<Rightarrow> board_error + action option" where
  "min_root ord b [] best_score best_move no_more_than = Inr best_move"
| "min_root ord b (a # as) best_score best_move no_more_than =
     (case result b a of
        Inl e \<Rightarrow> Inl e
      | Inr b' \<Rightarrow>
          (case max_value ord b' NegInf no_more_than of
             Inl e \<Rightarrow> Inl e
           | Inr s \<Rightarrow>
               if s < best_score
               then min_root ord b as s (Some a) (min no_more_than s)
               else min_root ord b as best_score best_move no_more_than))"

definition minimax :: "action_order \<Rightarrow> board \<Rightarrow> board_error + action option" where
  "minimax ord b =
     (if terminal b then Inr None
      else if player b = X then max_root ord b (ord (actions b)) NegInf None NegInf
      else min_root ord b (ord (actions b)) PosInf None PosInf)"

subsection \<open>Unpruned minimax\<close>

text \<open>
  Minimax without pruning, in the words of the spec: the reference the pruned search is
  compared with. \<open>minimax_value\<close> is the optimal value for the player to move, found by
  full-depth search: the utility of a terminal board, else the largest value of a
  successor when X moves and the smallest when O moves. \<open>unpruned_minimax\<close> is the move the
  root would return from these values: the first move, in iteration order, that is
  strictly better than all before it.
\<close>

function minimax_value :: "board \<Rightarrow> score" where
  "minimax_value b =
     (if terminal b then Fin (utility b)
      else if player b = X
      then fold max (map (\<lambda>a. case result b a of Inl e \<Rightarrow> Fin 0
                                | Inr b' \<Rightarrow> minimax_value b') (actions b)) NegInf
      else fold min (map (\<lambda>a. case result b a of Inl e \<Rightarrow> Fin 0
                                | Inr b' \<Rightarrow> minimax_value b') (actions b)) PosInf)"
  by pat_completeness auto
termination
  by (relation "measure empties") (auto dest: result_empties)

declare minimax_value.simps [simp del]

definition child_value :: "board \<Rightarrow> action \<Rightarrow> score" where
  "child_value b a = (case result b a of Inl e \<Rightarrow> Fin 0 | Inr b' \<Rightarrow> minimax_value b')"

fun first_best ::
    "(score \<Rightarrow> score \<Rightarrow> bool) \<Rightarrow> (action \<times> score) list \<Rightarrow> score \<Rightarrow> action option
      \<Rightarrow> action option" where
  "first_best better [] best_score best_move = best_move"
| "first_best better ((a, s) # rest) best_score best_move =
     (if better s best_score then first_best better rest s (Some a)
      else first_best better rest best_score best_move)"

definition unpruned_minimax :: "action_order \<Rightarrow> board \<Rightarrow> action option" where
  "unpruned_minimax ord b =
     (if terminal b then None
      else if player b = X
      then first_best (\<lambda>s t. s > t) (map (\<lambda>a. (a, child_value b a)) (ord (actions b))) NegInf None
      else first_best (\<lambda>s t. s < t) (map (\<lambda>a. (a, child_value b a)) (ord (actions b))) PosInf None)"

text \<open>The boards reachable in legal play from the initial state.\<close>

inductive reachable :: "board \<Rightarrow> bool" where
  initial: "reachable initial_state"
| move: "reachable b \<Longrightarrow> \<not> terminal b \<Longrightarrow> a \<in> set (actions b) \<Longrightarrow> result b a = Inr b'
           \<Longrightarrow> reachable b'"

text \<open>
  Whose turn it is by the counts of the marks, the window property of a pruned value
  (\<open>r\<close> is exact inside the window, a lower bound of \<open>v\<close> at or above it, an upper bound
  at or below it), and the best value among some actions.
\<close>

definition x_turn :: "board \<Rightarrow> bool" where
  "x_turn b = (count_list (cells b) (Some X) = count_list (cells b) (Some O'))"

definition o_turn :: "board \<Rightarrow> bool" where
  "o_turn b = (count_list (cells b) (Some X) = Suc (count_list (cells b) (Some O')))"

definition sound :: "score \<Rightarrow> score \<Rightarrow> score \<Rightarrow> score \<Rightarrow> bool" where
  "sound lo hi v r = ((lo < r \<longrightarrow> r \<le> v) \<and> (r < hi \<longrightarrow> v \<le> r))"

definition finite_score :: "score \<Rightarrow> bool" where
  "finite_score s = (case s of Fin i \<Rightarrow> True | _ \<Rightarrow> False)"

definition max_of :: "board \<Rightarrow> action list \<Rightarrow> score" where
  "max_of b as = foldr max (map (child_value b) as) NegInf"

definition min_of :: "board \<Rightarrow> action list \<Rightarrow> score" where
  "min_of b as = foldr min (map (child_value b) as) PosInf"

subsection \<open>Example boards\<close>

definition board_x :: board where
  "board_x = ((Some X, None, None), (None, None, None), (None, None, None))"

definition board_xo :: board where
  "board_xo = ((Some X, None, None), (Some O', None, None), (None, None, None))"

definition board_xxo :: board where
  "board_xxo = ((Some X, Some X, None), (Some O', None, None), (None, None, None))"

definition board_xxoo :: board where
  "board_xxoo = ((Some X, Some X, None), (Some O', Some O', None), (None, None, None))"

definition heap0 :: heap where
  "heap0 = [(None, None, None), (None, Some X, None), (None, None, None)]"

section \<open>Degrees of separation: proofs\<close>

subsection \<open>What neighbors_for_person computes\<close>

lemma iteration_order_set: "iteration_order ord \<Longrightarrow> set (ord xs) = set xs"
  by (metis iteration_order_def set_mset_mset)

lemma iteration_order_id: "iteration_order id"
  by (simp add: iteration_order_def)

lemma set_star_pairs:
  "star_pairs st ms = Inr r \<Longrightarrow>
     set r = {(m, q). m \<in> set ms \<and> (\<exists>ss. map_of (movies st) m = Some ss \<and> q \<in> set ss)}"
proof (induction ms arbitrary: r)
  case Nil
  then show ?case by simp
next
  case (Cons a ms)
  then show ?case by (auto split: option.splits sum.splits)
qed

lemma set_neighbors:
  assumes "iteration_order ord" "neighbors_for_person ord st p = Inr nb"
  shows "\<exists>ms. map_of (people st) p = Some ms \<and>
     set nb = {(m, q). m \<in> set ms \<and> (\<exists>ss. map_of (movies st) m = Some ss \<and> q \<in> set ss)}"
  using assms(2)
  by (auto simp: neighbors_for_person_def iteration_order_set[OF assms(1)]
           split: option.splits sum.splits dest!: set_star_pairs)

text \<open>
  C6, as the claim states it, fails: the inner loop of \<^verbatim>\<open>neighbors_for_person\<close> adds a
  pair for every star of every movie of the person and filters nobody out, so the person
  expanded is paired with each of their own movies. In the store with the one movie M
  starring A and B, expanding A yields the self-pair (M, A).
\<close>

theorem neighbors_self_pair_counterexample:
  "neighbors_for_person id st_pair ''A'' = Inr [(''M'', ''A''), (''M'', ''B'')]"
  by (simp add: neighbors_for_person_def st_pair_def)

text \<open>
  C6, amended: for a person P present in the store, the pairs computed when expanding P are
  exactly the pairs (m, q) with m a movie of P and q in the star set of m; P is not
  filtered out, so the self-pair (m, P) is among them exactly when P is in the star set
  of its movie m.
\<close>

theorem neighbors_for_person_pairs:
  assumes "iteration_order ord"
    and "map_of (people st) p = Some ms"
    and "neighbors_for_person ord st p = Inr nb"
  shows "((m, q) \<in> set nb \<longleftrightarrow>
            m \<in> set ms \<and> (\<exists>ss. map_of (movies st) m = Some ss \<and> q \<in> set ss))
         \<and> ((m, p) \<in> set nb \<longleftrightarrow>
            m \<in> set ms \<and> (\<exists>ss. map_of (movies st) m = Some ss \<and> p \<in> set ss))"
  using set_neighbors[OF assms(1,3)] assms(2) by auto

theorem neighbors_for_person_pairs_witness:
  "iteration_order (id :: set_order)
   \<and> map_of (people st_pair) ''A'' = Some [''M'']
   \<and> neighbors_for_person id st_pair ''A'' = Inr [(''M'', ''A''), (''M'', ''B'')]
   \<and> (''M'', ''A'') \<in> set [(''M'', ''A''), (''M'', ''B'')]
   \<and> ''M'' \<in> set [''M'']
   \<and> (\<exists>ss. map_of (movies st_pair) ''M'' = Some ss \<and> ''A'' \<in> set ss)"
proof -
  have h1: "iteration_order (id :: set_order)" by (rule iteration_order_id)
  have h2: "map_of (people st_pair) ''A'' = Some [''M'']" by (simp add: st_pair_def)
  have h3: "neighbors_for_person id st_pair ''A'' = Inr [(''M'', ''A''), (''M'', ''B'')]"
    by (simp add: neighbors_for_person_def st_pair_def)
  from neighbors_for_person_pairs[OF h1 h2 h3, of "''M''" "''A''"] h1 h2 h3
  show ?thesis by simp
qed

subsection \<open>Source equal to target\<close>

text \<open>
  C9: for every person P, \<^verbatim>\<open>shortest_path(P, P)\<close> returns the empty sequence: not an
  error and not not-found. The comparison of source and target is the first statement of
  the function, before any lookup in the store, so the result does not depend on the store.
\<close>

theorem shortest_path_same_person:
  "shortest_path ord st p p = Inr (Some [])"
  by (simp add: shortest_path_def)

text \<open>
  C10: when source equals target and the source has no recorded movies, the result is the
  empty sequence and not the no-movies error: the equality check comes before the check
  of the movie set. The same source with any other target raises the error.
\<close>

theorem same_person_before_no_movies:
  assumes "map_of (people st) p = Some []"
  shows "shortest_path ord st p p = Inr (Some [])
         \<and> (q \<noteq> p \<longrightarrow> shortest_path ord st p q = Inl NoMovies)"
  using assms by (simp add: shortest_path_def)

theorem same_person_before_no_movies_witness:
  "map_of (people st_loner) ''A'' = Some []
   \<and> shortest_path id st_loner ''A'' ''A'' = Inr (Some [])
   \<and> ''B'' \<noteq> ''A''
   \<and> shortest_path id st_loner ''A'' ''B'' = Inl NoMovies"
proof -
  have h: "map_of (people st_loner) ''A'' = Some []" by (simp add: st_loner_def)
  from same_person_before_no_movies[OF h, of id "''B''"] h show ?thesis by simp
qed

subsection \<open>Paths, walks and distance\<close>

lemma valid_path_snoc:
  "valid_path st a (xs @ [(mo, q)]) c \<longleftrightarrow>
     (\<exists>b m. mo = Some m \<and> valid_path st a xs b \<and> costar st b m q) \<and> q = c"
  by (induction xs arbitrary: a) (auto split: option.splits)

lemma valid_path_walk:
  "valid_path st p pth q \<Longrightarrow> \<exists>xs. walk st p xs q \<and> length xs \<le> length pth"
proof (induction pth arbitrary: p)
  case Nil
  then have "walk st p [] q" by simp
  then show ?case by fastforce
next
  case (Cons h pth)
  obtain mo x where h: "h = (mo, x)" by (cases h)
  from Cons.prems obtain m where mo: "mo = Some m" and c: "costar st p m x"
    and v: "valid_path st x pth q" by (auto simp: h split: option.splits)
  from Cons.IH[OF v] obtain xs where xs: "walk st x xs q" "length xs \<le> length pth" by blast
  show ?case
  proof (cases "x = p")
    case True
    with xs show ?thesis by (intro exI[of _ xs]) simp
  next
    case False
    from c have "m \<in> fst ` set (movies st)"
      by (auto simp: costar_def split: option.splits dest!: map_of_SomeD intro: rev_image_eqI)
    with c False have "costars st p x" by (auto simp: costars_def)
    with xs show ?thesis by (intro exI[of _ "x # xs"]) simp
  qed
qed

lemma walk_valid_path:
  "walk st p xs q \<Longrightarrow> \<exists>pth. valid_path st p pth q \<and> length pth = length xs"
proof (induction xs arbitrary: p)
  case Nil
  then have "valid_path st p [] q" by simp
  then show ?case by fastforce
next
  case (Cons x xs)
  then obtain m where c: "costar st p m x" and w: "walk st x xs q"
    by (auto simp: costars_def)
  from Cons.IH[OF w] obtain pth where "valid_path st x pth q" "length pth = length xs" by blast
  with c show ?case by (intro exI[of _ "(Some m, x) # pth"]) simp
qed

lemma minimal_path_distance:
  assumes v: "valid_path st p pth q"
    and mn: "\<forall>pth'. valid_path st p pth' q \<longrightarrow> length pth \<le> length pth'"
  shows "length pth = distance st p q"
  unfolding distance_def
proof (rule Least_equality[symmetric])
  from valid_path_walk[OF v] obtain xs where xs: "walk st p xs q" "length xs \<le> length pth"
    by blast
  from walk_valid_path[OF xs(1)] mn have "length pth \<le> length xs" by fastforce
  with xs show "\<exists>xs. walk st p xs q \<and> length xs = length pth" by auto
next
  fix k assume "\<exists>xs. walk st p xs q \<and> length xs = k"
  then obtain xs where "walk st p xs q" "length xs = k" by blast
  with walk_valid_path[of st p xs q] mn show "length pth \<le> k" by fastforce
qed

lemma valid_path_hops:
  "valid_path st src pth tgt \<Longrightarrow> pth \<noteq> [] \<Longrightarrow>
     (\<forall>i < length pth. hop_ok st src pth i) \<and> snd (last pth) = tgt"
proof (induction pth arbitrary: src)
  case Nil
  then show ?case by simp
next
  case (Cons h pth)
  obtain mo x where h: "h = (mo, x)" by (cases h)
  from Cons.prems obtain m where mo: "mo = Some m" and c: "costar st src m x"
    and v: "valid_path st x pth tgt" by (auto simp: h split: option.splits)
  have h0: "hop_ok st src (h # pth) 0"
    using c by (auto simp: hop_ok_def h mo costar_def split: option.splits)
  show ?case
  proof (cases "pth = []")
    case True
    with v h0 show ?thesis by (simp add: h)
  next
    case False
    from Cons.IH[OF v False] have ih: "\<forall>i < length pth. hop_ok st x pth i"
      and l: "snd (last pth) = tgt" by auto
    have "hop_ok st src (h # pth) i" if "i < length (h # pth)" for i
    proof (cases i)
      case 0
      with h0 show ?thesis by simp
    next
      case (Suc j)
      with that ih have "hop_ok st x pth j" by simp
      then show ?thesis
        by (cases j) (auto simp: hop_ok_def Suc h split: option.splits)
    qed
    with l False show ?thesis by simp
  qed
qed

lemma component_walk:
  "component st ps \<Longrightarrow> p \<in> set ps \<Longrightarrow> walk st p w q \<Longrightarrow> q \<in> set ps"
proof (induction w arbitrary: p)
  case Nil
  then show ?case by simp
next
  case (Cons x w)
  from Cons.prems(3) obtain m ss where "map_of (movies st) m = Some ss" "p \<in> set ss" "x \<in> set ss"
    and w: "walk st x w q"
    by (auto simp: costars_def costar_def split: option.splits)
  then have "(m, ss) \<in> set (movies st)" by (auto dest: map_of_SomeD)
  with Cons.prems(1,2) \<open>p \<in> set ss\<close> \<open>x \<in> set ss\<close> have "x \<in> set ps"
    unfolding component_def by blast
  from Cons.IH[OF Cons.prems(1) this w] show ?case .
qed

lemma component_not_connected:
  "component st ps \<Longrightarrow> p \<in> set ps \<Longrightarrow> q \<notin> set ps \<Longrightarrow> \<not> connected st p q"
  unfolding connected_def using component_walk by blast

subsection \<open>The loop keeps its invariant\<close>

lemma node_ok_hops:
  "node_ok st src n \<Longrightarrow>
     valid_path st src (rev (hops_to_root n)) (state n) \<and> length (hops_to_root n) = depth n"
proof (induction n)
  case (Node s par a)
  show ?case
  proof (cases par)
    case None
    with Node.prems show ?thesis by simp
  next
    case (Some p)
    with Node.prems obtain m where a: "a = Some m" and c: "costar st (state p) m s"
      and ok: "node_ok st src p"
      by (auto split: option.splits)
    from Node.IH[of p] Some ok
    have "valid_path st src (rev (hops_to_root p)) (state p)"
      and "length (hops_to_root p) = depth p" by auto
    with a c Some show ?thesis by (auto simp: valid_path_snoc)
  qed
qed

text \<open>Under the graph invariant the neighbours of a person are its co-stars.\<close>

lemma neighbors_costar:
  assumes go: "graph_invariant st" and io: "iteration_order ord"
    and nb: "neighbors_for_person ord st p = Inr nb"
  shows "(m, q) \<in> set nb \<longleftrightarrow> costar st p m q"
proof -
  from set_neighbors[OF io nb] obtain ms where ms: "map_of (people st) p = Some ms"
    and nbs: "set nb = {(m, q). m \<in> set ms \<and> (\<exists>ss. map_of (movies st) m = Some ss \<and> q \<in> set ss)}"
    by blast
  have pin: "(p, ms) \<in> set (people st)" using ms by (rule map_of_SomeD)
  show ?thesis
  proof
    assume "(m, q) \<in> set nb"
    with nbs obtain ss where m: "m \<in> set ms" and ss: "map_of (movies st) m = Some ss" "q \<in> set ss"
      by auto
    from go pin m ss have "p \<in> set ss" by (fastforce simp: graph_invariant_def)
    with ss show "costar st p m q" by (simp add: costar_def)
  next
    assume "costar st p m q"
    then obtain ss where ss: "map_of (movies st) m = Some ss" "p \<in> set ss" "q \<in> set ss"
      by (auto simp: costar_def split: option.splits)
    from ss(1) have "(m, ss) \<in> set (movies st)" by (rule map_of_SomeD)
    with go ss(2) ms have "m \<in> set ms" by (fastforce simp: graph_invariant_def)
    with nbs ss show "(m, q) \<in> set nb" by auto
  qed
qed

lemma star_pairs_total:
  "\<forall>m \<in> set ms. map_of (movies st) m \<noteq> None \<Longrightarrow> \<exists>r. star_pairs st ms = Inr r"
  by (induction ms) auto

lemma neighbors_total:
  assumes go: "graph_invariant st" and p: "map_of (people st) p = Some ms"
  shows "\<exists>nb. neighbors_for_person ord st p = Inr nb"
proof -
  have pin: "(p, ms) \<in> set (people st)" using p by (rule map_of_SomeD)
  with go have "\<forall>m \<in> set ms. map_of (movies st) m \<noteq> None"
    by (fastforce simp: graph_invariant_def split: option.splits)
  from star_pairs_total[OF this] p show ?thesis
    by (auto simp: neighbors_for_person_def)
qed

lemma costar_in_people:
  assumes go: "graph_invariant st" and c: "costar st p m q"
  shows "map_of (people st) q \<noteq> None"
proof -
  from c obtain ss where ss: "map_of (movies st) m = Some ss" "q \<in> set ss"
    by (auto simp: costar_def split: option.splits)
  from ss(1) have "(m, ss) \<in> set (movies st)" by (rule map_of_SomeD)
  with go ss(2) show ?thesis by (fastforce simp: graph_invariant_def split: option.splits)
qed

text \<open>The children that one expansion appends to the frontier.\<close>

lemma add_children_append:
  "\<exists>cs. add_children nd ep em nb fr = fr @ cs
     \<and> (\<forall>c \<in> set cs. \<exists>m p. c = Node p (Some nd) (Some m) \<and> (m, p) \<in> set nb
            \<and> p \<notin> set ep \<and> m \<notin> set em \<and> p \<notin> state ` set fr)
     \<and> distinct (map state cs)
     \<and> (\<forall>(m, p) \<in> set nb. p \<notin> set ep \<and> m \<notin> set em \<longrightarrow> p \<in> state ` set (fr @ cs))"
proof (induction nb arbitrary: fr)
  case Nil
  show ?case by simp
next
  case (Cons x nb)
  obtain m p where x: "x = (m, p)" by (cases x)
  show ?case
  proof (cases "p \<notin> set ep \<and> m \<notin> set em \<and> \<not> contains_state fr p")
    case True
    define c where "c = Node p (Some nd) (Some m)"
    from Cons.IH[of "fr @ [c]"] obtain cs where
      cs: "add_children nd ep em nb (fr @ [c]) = (fr @ [c]) @ cs"
      and el: "\<forall>c' \<in> set cs. \<exists>m p. c' = Node p (Some nd) (Some m) \<and> (m, p) \<in> set nb
            \<and> p \<notin> set ep \<and> m \<notin> set em \<and> p \<notin> state ` set (fr @ [c])"
      and di: "distinct (map state cs)"
      and co: "\<forall>(m, p) \<in> set nb. p \<notin> set ep \<and> m \<notin> set em \<longrightarrow> p \<in> state ` set ((fr @ [c]) @ cs)"
      by blast
    have 1: "add_children nd ep em (x # nb) fr = fr @ (c # cs)"
      using True cs by (simp add: x add_def c_def)
    have 2: "\<forall>c' \<in> set (c # cs). \<exists>m' p'. c' = Node p' (Some nd) (Some m') \<and> (m', p') \<in> set (x # nb)
            \<and> p' \<notin> set ep \<and> m' \<notin> set em \<and> p' \<notin> state ` set fr"
    proof
      fix c' assume "c' \<in> set (c # cs)"
      then consider "c' = c" | "c' \<in> set cs" by auto
      then show "\<exists>m' p'. c' = Node p' (Some nd) (Some m') \<and> (m', p') \<in> set (x # nb)
            \<and> p' \<notin> set ep \<and> m' \<notin> set em \<and> p' \<notin> state ` set fr"
      proof cases
        case 1
        with True show ?thesis by (auto simp: c_def x contains_state_def)
      next
        case 2
        with el show ?thesis by fastforce
      qed
    qed
    have "state c \<notin> state ` set cs" using el by (fastforce simp: c_def)
    then have 3: "distinct (map state (c # cs))" using di by simp
    have 4: "\<forall>(m', p') \<in> set (x # nb). p' \<notin> set ep \<and> m' \<notin> set em \<longrightarrow> p' \<in> state ` set (fr @ (c # cs))"
      using co by (auto simp: x c_def)
    from 1 2 3 4 show ?thesis by blast
  next
    case False
    from Cons.IH[of fr] obtain cs where
      cs: "add_children nd ep em nb fr = fr @ cs"
      and el: "\<forall>c' \<in> set cs. \<exists>m p. c' = Node p (Some nd) (Some m) \<and> (m, p) \<in> set nb
            \<and> p \<notin> set ep \<and> m \<notin> set em \<and> p \<notin> state ` set fr"
      and di: "distinct (map state cs)"
      and co: "\<forall>(m, p) \<in> set nb. p \<notin> set ep \<and> m \<notin> set em \<longrightarrow> p \<in> state ` set (fr @ cs)"
      by blast
    have 1: "add_children nd ep em (x # nb) fr = fr @ cs"
      using False cs by (auto simp: x)
    have 2: "\<forall>c' \<in> set cs. \<exists>m' p'. c' = Node p' (Some nd) (Some m') \<and> (m', p') \<in> set (x # nb)
            \<and> p' \<notin> set ep \<and> m' \<notin> set em \<and> p' \<notin> state ` set fr"
      using el by fastforce
    have 4: "\<forall>(m', p') \<in> set (x # nb). p' \<notin> set ep \<and> m' \<notin> set em \<longrightarrow> p' \<in> state ` set (fr @ cs)"
      using co False by (auto simp: x contains_state_def)
    from 1 2 di 4 show ?thesis by blast
  qed
qed

lemma loop_body_Next_expands:
  assumes go: "graph_invariant st" and io: "iteration_order ord"
    and body: "loop_body ord st tgt nd rest ep em = Next fr' ep' em'"
  shows "expands st tgt nd rest ep em fr' ep' em'"
proof -
  have ns: "\<not> (state nd \<in> set ep
              \<and> (case action nd of None \<Rightarrow> True | Some m \<Rightarrow> m \<in> set em))"
    using body by (auto simp: loop_body_def Let_def)
  note b = body[unfolded loop_body_def Let_def, simplified ns if_False]
  from b obtain nb where nb: "neighbors_for_person ord st (state nd) = Inr nb"
    by (auto split: option.splits sum.splits bool.splits if_splits)
  from b have ep': "ep' = List.insert (state nd) ep"
    by (auto split: option.splits sum.splits bool.splits if_splits)
  from b have em': "em' = (case action nd of None \<Rightarrow> em | Some m \<Rightarrow> List.insert m em)"
    by (auto split: option.splits sum.splits bool.splits if_splits)
  from b nb have nt: "tgt \<notin> snd ` set nb"
    by (auto split: option.splits sum.splits bool.splits if_splits)
  from b nb have fr': "fr' = add_children nd ep' em' nb rest"
    unfolding ep' em' by (auto split: option.splits sum.splits bool.splits if_splits)
  note nbc = neighbors_costar[OF go io nb]
  from add_children_append[of nd ep' em' nb rest] obtain cs where
    cs: "fr' = rest @ cs"
    and el: "\<forall>c \<in> set cs. \<exists>m p. c = Node p (Some nd) (Some m) \<and> (m, p) \<in> set nb
            \<and> p \<notin> set ep' \<and> m \<notin> set em' \<and> p \<notin> state ` set rest"
    and di: "distinct (map state cs)"
    and co: "\<forall>(m, p) \<in> set nb. p \<notin> set ep' \<and> m \<notin> set em' \<longrightarrow> p \<in> state ` set (rest @ cs)"
    unfolding fr' by blast
  have 1: "set ep' = insert (state nd) (set ep)" by (simp add: ep')
  have 2: "set em' = set em \<union> set_option (action nd)"
    by (auto simp: em' split: option.splits)
  have 3: "\<forall>m. \<not> costar st (state nd) m tgt"
    using nt nbc by (metis image_eqI snd_conv)
  have 4: "\<forall>c \<in> set cs. \<exists>m p. c = Node p (Some nd) (Some m) \<and> costar st (state nd) m p
              \<and> p \<notin> set ep' \<and> m \<notin> set em' \<and> p \<notin> state ` set rest"
    using el nbc by blast
  have 5: "\<forall>m p. costar st (state nd) m p \<longrightarrow> p \<notin> set ep' \<longrightarrow> m \<notin> set em'
              \<longrightarrow> p \<in> state ` set (rest @ cs)"
    using co nbc by blast
  show ?thesis unfolding expands_def using 1 2 3 cs 4 di 5 by blast
qed

text \<open>
  Every person that a path no longer than the depths on the frontier reaches has been
  discovered.
\<close>

lemma discovered_complete:
  assumes inv: "search_inv st src tgt fr ep em"
    and vp: "valid_path st src q p"
    and le: "\<forall>n \<in> set fr. length q \<le> depth n"
  shows "p \<in> discovered fr ep"
  using vp le
proof (induction q arbitrary: p rule: rev_induct)
  case Nil
  then have "p = src" by simp
  with inv show ?case by (simp add: search_inv_def)
next
  case (snoc x q)
  obtain mo p' where x: "x = (mo, p')" by (cases x)
  from snoc.prems(1) obtain b m where vb: "valid_path st src q b" and c: "costar st b m p"
    by (auto simp: x valid_path_snoc)
  from snoc.prems(2) have le': "\<forall>n \<in> set fr. length q < depth n" by auto
  then have "\<forall>n \<in> set fr. length q \<le> depth n" by (auto intro: less_imp_le)
  from snoc.IH[OF vb this] have "b \<in> discovered fr ep" .
  then consider "b \<in> set ep" | n where "n \<in> set fr" "state n = b"
    by (auto simp: discovered_def)
  then show ?case
  proof cases
    case 1
    with inv c show ?thesis unfolding search_inv_def by blast
  next
    case 2
    from inv 2 vb have "depth n \<le> length q" unfolding search_inv_def by blast
    with le' 2(1) show ?thesis by fastforce
  qed
qed

lemma search_inv_step:
  assumes inv: "search_inv st src tgt (nd # rest) ep em"
    and ex: "expands st tgt nd rest ep em fr' ep' em'"
    and go: "graph_invariant st"
  shows "search_inv st src tgt fr' ep' em'"
proof -
  let ?y = "state nd"
  let ?D = "discovered (nd # rest) ep"
  let ?D' = "discovered fr' ep'"
  from ex obtain cs where
    ep': "set ep' = insert ?y (set ep)"
    and em': "set em' = set em \<union> set_option (action nd)"
    and nt: "\<forall>m. \<not> costar st ?y m tgt"
    and fr': "fr' = rest @ cs"
    and el: "\<forall>c \<in> set cs. \<exists>m p. c = Node p (Some nd) (Some m) \<and> costar st ?y m p
              \<and> p \<notin> set ep' \<and> m \<notin> set em' \<and> p \<notin> state ` set rest"
    and di: "distinct (map state cs)"
    and co: "\<forall>m p. costar st ?y m p \<longrightarrow> p \<notin> set ep' \<longrightarrow> m \<notin> set em'
              \<longrightarrow> p \<in> state ` set (rest @ cs)"
    unfolding expands_def by blast
  note I = inv[unfolded search_inv_def]
  have I1: "\<forall>n \<in> set (nd # rest). node_ok st src n" using I by blast
  have I2: "\<forall>n \<in> set (nd # rest). map_of (people st) (state n) \<noteq> None" using I by blast
  have I3: "src \<in> ?D" using I by blast
  have I4: "tgt \<notin> ?D" using I by blast
  have I5: "distinct (map state (nd # rest))" using I by blast
  have I6: "set ep \<inter> state ` set (nd # rest) = {}" using I by blast
  have I7: "sorted (map depth (nd # rest))" using I by blast
  have I8: "\<forall>n \<in> set (nd # rest). depth n \<le> Suc (depth (hd (nd # rest)))" using I by blast
  have I9: "\<forall>p \<in> set ep. \<forall>m q. costar st p m q \<longrightarrow> q \<in> ?D" using I by blast
  have I10: "\<forall>m \<in> set em. \<forall>p q. costar st p m q \<longrightarrow> q \<in> ?D" using I by blast
  have I11: "\<forall>n \<in> set (nd # rest). \<forall>m. action n = Some m \<longrightarrow>
         map_of (movies st) m \<noteq> None \<and> (\<forall>p. \<not> costar st p m tgt)
         \<and> (\<forall>p q. costar st p m q \<longrightarrow> q \<in> ?D)" using I by blast
  have I12: "\<forall>n \<in> set (nd # rest). \<forall>q. valid_path st src q (state n) \<longrightarrow> depth n \<le> length q"
    using I by blast
  have mono: "?D \<subseteq> ?D'" by (auto simp: discovered_def ep' fr')
  have cdepth: "\<forall>c \<in> set cs. depth c = Suc (depth nd)" using el by fastforce
  have lo: "\<forall>n \<in> set rest. depth nd \<le> depth n" using I7 by simp
  have hi: "\<forall>n \<in> set rest. depth n \<le> Suc (depth nd)" using I8 by simp
  \<comment> \<open>every co-star of the expanded person is discovered afterwards\<close>
  have ynb: "q \<in> ?D'" if c: "costar st ?y m q" for m q
  proof (cases "q \<in> set ep'")
    case True
    then show ?thesis by (simp add: discovered_def)
  next
    case False
    show ?thesis
    proof (cases "m \<in> set em'")
      case True
      then consider "m \<in> set em" | "action nd = Some m" using em' by (cases "action nd") auto
      then have "q \<in> ?D"
      proof cases
        case 1
        with I10 c show ?thesis by blast
      next
        case 2
        with I11 c show ?thesis by (meson list.set_intros(1))
      qed
      with mono show ?thesis by blast
    next
      case nm: False
      from co c False nm have "q \<in> state ` set (rest @ cs)" by blast
      then show ?thesis by (simp add: discovered_def fr')
    qed
  qed
  have J1: "\<forall>n \<in> set fr'. node_ok st src n"
  proof
    fix n assume "n \<in> set fr'"
    then consider "n \<in> set rest" | "n \<in> set cs" by (auto simp: fr')
    then show "node_ok st src n"
    proof cases
      case 1
      with I1 show ?thesis by simp
    next
      case 2
      with el obtain m p where "n = Node p (Some nd) (Some m)" "costar st ?y m p" by blast
      with I1 show ?thesis by simp
    qed
  qed
  have J2: "\<forall>n \<in> set fr'. map_of (people st) (state n) \<noteq> None"
  proof
    fix n assume "n \<in> set fr'"
    then consider "n \<in> set rest" | "n \<in> set cs" by (auto simp: fr')
    then show "map_of (people st) (state n) \<noteq> None"
    proof cases
      case 1
      with I2 show ?thesis by simp
    next
      case 2
      with el obtain m p where "n = Node p (Some nd) (Some m)" "costar st ?y m p" by blast
      with costar_in_people[OF go this(2)] show ?thesis by simp
    qed
  qed
  have J3: "src \<in> ?D'" using I3 mono by blast
  have J4: "tgt \<notin> ?D'"
  proof
    assume "tgt \<in> ?D'"
    then consider "tgt \<in> ?D" | "tgt \<in> state ` set cs"
      by (auto simp: discovered_def ep' fr')
    then show False
    proof cases
      case 1
      with I4 show ?thesis by blast
    next
      case 2
      then obtain c where "c \<in> set cs" "state c = tgt" by auto
      with el obtain m where "costar st ?y m tgt" by fastforce
      with nt show ?thesis by blast
    qed
  qed
  have cs_rest: "state ` set cs \<inter> state ` set rest = {}" using el by fastforce
  have J5: "distinct (map state fr')"
    using I5 di cs_rest by (auto simp: fr')
  have cs_ep: "state ` set cs \<inter> set ep' = {}" using el by fastforce
  have J6: "set ep' \<inter> state ` set fr' = {}"
    using I5 I6 cs_ep by (auto simp: fr' ep')
  have "map depth cs = replicate (length cs) (Suc (depth nd))"
    using cdepth by (simp add: map_replicate_const[symmetric] cong: map_cong)
  then have "sorted (map depth cs)" by (simp add: sorted_replicate)
  then have J7: "sorted (map depth fr')"
    using I7 hi cdepth by (auto simp: fr' sorted_append)
  have J8: "\<forall>n \<in> set fr'. depth n \<le> Suc (depth (hd fr'))"
  proof (cases "fr' = []")
    case True
    then show ?thesis by simp
  next
    case False
    then have "hd fr' \<in> set fr'" by simp
    then have "depth nd \<le> depth (hd fr')" using lo cdepth by (auto simp: fr')
    moreover have "\<forall>n \<in> set fr'. depth n \<le> Suc (depth nd)" using hi cdepth by (auto simp: fr')
    ultimately show ?thesis by fastforce
  qed
  have J9: "\<forall>p \<in> set ep'. \<forall>m q. costar st p m q \<longrightarrow> q \<in> ?D'"
  proof (intro ballI allI impI)
    fix p m q assume p: "p \<in> set ep'" and c: "costar st p m q"
    from p consider "p = ?y" | "p \<in> set ep" by (auto simp: ep')
    then show "q \<in> ?D'"
    proof cases
      case 1
      with c ynb show ?thesis by blast
    next
      case 2
      with I9 c mono show ?thesis by blast
    qed
  qed
  \<comment> \<open>the stars of the incoming movie of the node were discovered when it entered\<close>
  have own: "q \<in> ?D'" if "action nd = Some m" "costar st p m q" for m p q
    using I11 that mono by (meson list.set_intros(1) subsetD)
  have J10: "\<forall>m \<in> set em'. \<forall>p q. costar st p m q \<longrightarrow> q \<in> ?D'"
  proof (intro ballI allI impI)
    fix m p q assume m: "m \<in> set em'" and c: "costar st p m q"
    from m consider "m \<in> set em" | "action nd = Some m"
      using em' by (cases "action nd") auto
    then show "q \<in> ?D'"
    proof cases
      case 1
      with I10 c mono show ?thesis by blast
    next
      case 2
      with own c show ?thesis by blast
    qed
  qed
  have J11: "\<forall>n \<in> set fr'. \<forall>m. action n = Some m \<longrightarrow>
         map_of (movies st) m \<noteq> None \<and> (\<forall>p. \<not> costar st p m tgt)
         \<and> (\<forall>p q. costar st p m q \<longrightarrow> q \<in> ?D')"
  proof (intro ballI allI impI)
    fix n m assume n: "n \<in> set fr'" and a: "action n = Some m"
    from n consider "n \<in> set rest" | "n \<in> set cs" by (auto simp: fr')
    then show "map_of (movies st) m \<noteq> None \<and> (\<forall>p. \<not> costar st p m tgt)
         \<and> (\<forall>p q. costar st p m q \<longrightarrow> q \<in> ?D')"
    proof cases
      case 1
      with I11 a mono show ?thesis by (meson list.set_intros(2) subsetD)
    next
      case 2
      with el a obtain p where cy: "costar st ?y m p" by fastforce
      then have ex: "map_of (movies st) m \<noteq> None" by (auto simp: costar_def split: option.splits)
      have yq: "costar st ?y m q" if "costar st p' m q" for p' q
        using cy that by (auto simp: costar_def split: option.splits)
      have "\<not> costar st p' m tgt" for p' using yq nt by blast
      moreover have "q \<in> ?D'" if "costar st p' m q" for p' q using yq[OF that] ynb by blast
      ultimately show ?thesis using ex by blast
    qed
  qed
  have J12: "\<forall>n \<in> set fr'. \<forall>q. valid_path st src q (state n) \<longrightarrow> depth n \<le> length q"
  proof (intro ballI allI impI)
    fix n q assume n: "n \<in> set fr'" and vp: "valid_path st src q (state n)"
    from n consider "n \<in> set rest" | "n \<in> set cs" by (auto simp: fr')
    then show "depth n \<le> length q"
    proof cases
      case 1
      with I12 vp show ?thesis by simp
    next
      case 2
      with el obtain m p where nn: "n = Node p (Some nd) (Some m)"
        and fresh: "p \<notin> set ep'" "p \<notin> state ` set rest" by blast
      show ?thesis
      proof (rule ccontr)
        assume "\<not> depth n \<le> length q"
        then have "length q \<le> depth nd" by (simp add: nn)
        with lo have "\<forall>n' \<in> set (nd # rest). length q \<le> depth n'" by auto
        from discovered_complete[OF inv vp this] have "p \<in> ?D" by (simp add: nn)
        with fresh show False by (auto simp: discovered_def ep')
      qed
    qed
  qed
  show ?thesis
    unfolding search_inv_def
    using J1 J2 J3 J4 J5 J6 J7 J8 J9 J10 J11 J12 by blast
qed

lemma find_SomeD: "find P xs = Some x \<Longrightarrow> x \<in> set xs \<and> P x"
  by (induction xs) (auto split: if_splits)

lemma search_inv_no_Skip:
  assumes inv: "search_inv st src tgt (nd # rest) ep em"
  shows "loop_body ord st tgt nd rest ep em \<noteq> Skip"
proof -
  from inv have "state nd \<notin> set ep" unfolding search_inv_def by auto
  then show ?thesis
    by (auto simp: loop_body_def Let_def split: option.splits sum.splits bool.splits)
qed

lemma search_inv_Done:
  assumes inv: "search_inv st src tgt (nd # rest) ep em"
    and go: "graph_invariant st" and io: "iteration_order ord"
    and body: "loop_body ord st tgt nd rest ep em = Done r"
  shows "search_post st src tgt r"
proof -
  note I = inv[unfolded search_inv_def]
  have ny: "state nd \<notin> set ep" using I by auto
  have ok: "node_ok st src nd" using I by auto
  from I have "map_of (people st) (state nd) \<noteq> None" by auto
  then obtain ms where ms: "map_of (people st) (state nd) = Some ms" by blast
  from neighbors_total[OF go ms] obtain nb
    where nb: "neighbors_for_person ord st (state nd) = Inr nb" by blast
  have chk: "(case action nd of
                None \<Rightarrow> Inr False
              | Some m \<Rightarrow>
                  (case map_of (movies st) m of
                     None \<Rightarrow> Inl KeyError
                   | Some ss \<Rightarrow> Inr (tgt \<in> set ss))) = Inr False"
  proof (cases "action nd")
    case None
    then show ?thesis by simp
  next
    case (Some m)
    with I have ex: "map_of (movies st) m \<noteq> None" and nt: "\<not> costar st tgt m tgt"
      by (meson list.set_intros(1))+
    then show ?thesis using Some by (auto simp: costar_def split: option.splits)
  qed
  from body ny nb chk
  have hit: "tgt \<in> set (map snd nb)"
    and r: "r = Inr (Some (rev ((case find (\<lambda>(m, p). p = tgt) nb of
                           None \<Rightarrow> []
                         | Some (m, p) \<Rightarrow> [(Some m, p)]) @ hops_to_root nd)))"
    by (auto simp: loop_body_def Let_def split: if_splits)
  from hit have "\<exists>x \<in> set nb. (\<lambda>(m, p). p = tgt) x" by auto
  then obtain x where f: "find (\<lambda>(m, p). p = tgt) nb = Some x"
    by (cases "find (\<lambda>(m, p). p = tgt) nb") (auto simp: find_None_iff)
  from find_SomeD[OF f] obtain m where x: "x = (m, tgt)" and xin: "(m, tgt) \<in> set nb"
    by auto
  from xin neighbors_costar[OF go io nb] have c: "costar st (state nd) m tgt" by blast
  let ?path = "rev (hops_to_root nd) @ [(Some m, tgt)]"
  from r f x have r': "r = Inr (Some ?path)" by simp
  from node_ok_hops[OF ok] have vh: "valid_path st src (rev (hops_to_root nd)) (state nd)"
    and len: "length (hops_to_root nd) = depth nd" by auto
  from vh c have v: "valid_path st src ?path tgt" by (auto simp: valid_path_snoc)
  have mn: "length ?path \<le> length q" if vq: "valid_path st src q tgt" for q
  proof (rule ccontr)
    assume "\<not> length ?path \<le> length q"
    then have "length q \<le> depth nd" using len by simp
    moreover from I have "sorted (map depth (nd # rest))" by blast
    ultimately have "\<forall>n \<in> set (nd # rest). length q \<le> depth n" by auto
    from discovered_complete[OF inv vq this] I show False by blast
  qed
  from v mn show ?thesis unfolding r' search_post_def by simp
qed

lemma search_inv_empty:
  assumes inv: "search_inv st src tgt [] ep em"
  shows "\<not> (\<exists>q. valid_path st src q tgt)"
proof
  assume "\<exists>q. valid_path st src q tgt"
  then obtain q where "valid_path st src q tgt" by blast
  from discovered_complete[OF inv this] have "tgt \<in> discovered [] ep" by simp
  with inv show False by (simp add: search_inv_def)
qed

lemma loop_correct:
  "graph_invariant st \<Longrightarrow> iteration_order ord \<Longrightarrow> search_inv st src tgt fr ep em
     \<Longrightarrow> search_post st src tgt (loop ord st tgt fr ep em)"
proof (induction ord st tgt fr ep em rule: loop.induct)
  case (1 ord st tgt fr ep em)
  note go = "1.prems"(1) and io = "1.prems"(2) and inv = "1.prems"(3)
  show ?case
  proof (cases fr)
    case Nil
    with search_inv_empty[of st src tgt ep em] inv show ?thesis
      by (simp add: loop.simps search_post_def)
  next
    case (Cons nd rest)
    note inv' = inv[unfolded Cons]
    show ?thesis
    proof (cases "loop_body ord st tgt nd rest ep em")
      case (Done r)
      from search_inv_Done[OF inv' go io Done] Done Cons show ?thesis
        by (simp add: loop.simps)
    next
      case Skip
      with search_inv_no_Skip[OF inv'] show ?thesis by blast
    next
      case (Next fr' ep' em')
      from search_inv_step[OF inv' loop_body_Next_expands[OF go io Next] go]
      have "search_inv st src tgt fr' ep' em'" .
      from "1.IH"(2)[OF Cons Next go io this] Next Cons show ?thesis
        by (simp add: loop.simps)
    qed
  qed
qed

lemma search_inv_initial:
  assumes "src \<noteq> tgt" and "map_of (people st) src = Some ms"
  shows "search_inv st src tgt [Node src None None] [] []"
  using assms by (simp add: search_inv_def discovered_def)

lemma shortest_path_correct:
  assumes go: "graph_invariant st" and io: "iteration_order ord"
    and ne: "src \<noteq> tgt" and ms: "map_of (people st) src = Some ms" "ms \<noteq> []"
  shows "search_post st src tgt (shortest_path ord st src tgt)"
  using loop_correct[OF go io search_inv_initial[OF ne ms(1)]] ne ms
  by (simp add: shortest_path_def)

lemma expansions_once:
  "graph_invariant st \<Longrightarrow> iteration_order ord \<Longrightarrow> search_inv st src tgt fr ep em
     \<Longrightarrow> distinct (map state (expansions ord st tgt fr ep em))
         \<and> state ` set (expansions ord st tgt fr ep em) \<inter> set ep = {}
         \<and> state ` set (expansions ord st tgt fr ep em) \<subseteq> fst ` set (people st)"
proof (induction ord st tgt fr ep em rule: expansions.induct)
  case (1 ord st tgt fr ep em)
  note go = "1.prems"(1) and io = "1.prems"(2) and inv = "1.prems"(3)
  show ?case
  proof (cases fr)
    case Nil
    then show ?thesis by (simp add: expansions.simps)
  next
    case (Cons nd rest)
    note inv' = inv[unfolded Cons]
    from inv' have ny: "state nd \<notin> set ep" unfolding search_inv_def by auto
    from inv' have "map_of (people st) (state nd) \<noteq> None" unfolding search_inv_def by auto
    then have yp: "state nd \<in> fst ` set (people st)"
      by (auto dest!: map_of_SomeD intro: rev_image_eqI)
    show ?thesis
    proof (cases "loop_body ord st tgt nd rest ep em")
      case (Done r)
      with Cons ny yp show ?thesis by (simp add: expansions.simps)
    next
      case Skip
      with search_inv_no_Skip[OF inv'] show ?thesis by blast
    next
      case (Next fr' ep' em')
      note ex = loop_body_Next_expands[OF go io Next]
      from search_inv_step[OF inv' ex go]
      have "search_inv st src tgt fr' ep' em'" .
      from "1.IH"(2)[OF Cons Next go io this]
      have ih: "distinct (map state (expansions ord st tgt fr' ep' em'))"
        "state ` set (expansions ord st tgt fr' ep' em') \<inter> set ep' = {}"
        "state ` set (expansions ord st tgt fr' ep' em') \<subseteq> fst ` set (people st)"
        by auto
      from ex have ep': "set ep' = insert (state nd) (set ep)" by (simp add: expands_def)
      have e: "expansions ord st tgt fr ep em = nd # expansions ord st tgt fr' ep' em'"
        using Cons Next by (simp add: expansions.simps)
      from ih ep' yp ny show ?thesis unfolding e by auto
    qed
  qed
qed

lemma loop_fuel_returns:
  "\<exists>n. loop_fuel n ord st tgt fr ep em = Some (loop ord st tgt fr ep em)"
proof (induction ord st tgt fr ep em rule: loop.induct)
  case (1 ord st tgt fr ep em)
  show ?case
  proof (cases fr)
    case Nil
    then have "loop_fuel (Suc 0) ord st tgt fr ep em = Some (loop ord st tgt fr ep em)"
      by (simp add: loop.simps)
    then show ?thesis by blast
  next
    case (Cons nd rest)
    show ?thesis
    proof (cases "loop_body ord st tgt nd rest ep em")
      case (Done r)
      with Cons have "loop_fuel (Suc 0) ord st tgt fr ep em = Some (loop ord st tgt fr ep em)"
        by (simp add: loop.simps)
      then show ?thesis by blast
    next
      case Skip
      from "1.IH"(1)[OF Cons Skip] obtain n where
        "loop_fuel n ord st tgt rest ep em = Some (loop ord st tgt rest ep em)" by blast
      with Cons Skip
      have "loop_fuel (Suc n) ord st tgt fr ep em = Some (loop ord st tgt fr ep em)"
        by (simp add: loop.simps)
      then show ?thesis by blast
    next
      case (Next fr' ep' em')
      from "1.IH"(2)[OF Cons Next] obtain n where
        "loop_fuel n ord st tgt fr' ep' em' = Some (loop ord st tgt fr' ep' em')" by blast
      with Cons Next
      have "loop_fuel (Suc n) ord st tgt fr ep em = Some (loop ord st tgt fr ep em)"
        by (simp add: loop.simps)
      then show ?thesis by blast
    qed
  qed
qed

lemma loop_fuel_enough:
  "graph_invariant st \<Longrightarrow> iteration_order ord \<Longrightarrow> search_inv st src tgt fr ep em
     \<Longrightarrow> length (expansions ord st tgt fr ep em) < n
     \<Longrightarrow> loop_fuel n ord st tgt fr ep em = Some (loop ord st tgt fr ep em)"
proof (induction ord st tgt fr ep em arbitrary: n rule: loop.induct)
  case (1 ord st tgt fr ep em)
  note go = "1.prems"(1) and io = "1.prems"(2) and inv = "1.prems"(3)
  from "1.prems"(4) obtain k where n: "n = Suc k" by (cases n) auto
  show ?case
  proof (cases fr)
    case Nil
    then show ?thesis by (simp add: n loop.simps)
  next
    case (Cons nd rest)
    note inv' = inv[unfolded Cons]
    show ?thesis
    proof (cases "loop_body ord st tgt nd rest ep em")
      case (Done r)
      with Cons show ?thesis by (simp add: n loop.simps)
    next
      case Skip
      with search_inv_no_Skip[OF inv'] show ?thesis by blast
    next
      case (Next fr' ep' em')
      from search_inv_step[OF inv' loop_body_Next_expands[OF go io Next] go]
      have i': "search_inv st src tgt fr' ep' em'" .
      from "1.prems"(4) Cons Next have "length (expansions ord st tgt fr' ep' em') < k"
        by (simp add: n expansions.simps)
      from "1.IH"(2)[OF Cons Next go io i' this] Cons Next show ?thesis
        by (simp add: n loop.simps)
    qed
  qed
qed

subsection \<open>Returned paths are valid\<close>

text \<open>
  That a returned path is valid needs less than the graph invariant: it is enough that
  every person is in the star set of each of their movies that the movie table has.
\<close>

lemma graph_invariant_billed: "graph_invariant st \<Longrightarrow> people_billed st"
  by (fastforce simp: graph_invariant_def people_billed_def split: option.splits)

lemma neighbors_costar_billed:
  assumes sc: "people_billed st" and io: "iteration_order ord"
    and nb: "neighbors_for_person ord st p = Inr nb"
    and "(m, q) \<in> set nb"
  shows "costar st p m q"
proof -
  from set_neighbors[OF io nb] obtain ms where ms: "map_of (people st) p = Some ms"
    and nbs: "set nb = {(m, q). m \<in> set ms \<and> (\<exists>ss. map_of (movies st) m = Some ss \<and> q \<in> set ss)}"
    by blast
  have pin: "(p, ms) \<in> set (people st)" using ms by (rule map_of_SomeD)
  from assms(4) nbs obtain ss where m: "m \<in> set ms" and ss: "map_of (movies st) m = Some ss" "q \<in> set ss"
    by auto
  from sc pin m ss have "p \<in> set ss" by (fastforce simp: people_billed_def)
  with ss show "costar st p m q" by (simp add: costar_def)
qed

lemma neighbors_all_stars:
  assumes io: "iteration_order ord"
    and nb: "neighbors_for_person ord st p = Inr nb"
    and "(m, q) \<in> set nb" and "costar st p' m t"
  shows "(m, t) \<in> set nb"
proof -
  from set_neighbors[OF io nb] obtain ms where
    nbs: "set nb = {(m, q). m \<in> set ms \<and> (\<exists>ss. map_of (movies st) m = Some ss \<and> q \<in> set ss)}"
    by blast
  from assms(4) obtain ss where "map_of (movies st) m = Some ss" "t \<in> set ss"
    by (auto simp: costar_def split: option.splits)
  with assms(3) nbs show ?thesis by auto
qed

lemma loop_valid:
  "people_billed st \<Longrightarrow> iteration_order ord \<Longrightarrow> frontier_paths st src tgt fr \<Longrightarrow>
     loop ord st tgt fr ep em = Inr (Some pth) \<Longrightarrow> valid_path st src pth tgt"
proof (induction ord st tgt fr ep em rule: loop.induct)
  case (1 ord st tgt fr ep em)
  note sc = "1.prems"(1) and io = "1.prems"(2) and inv = "1.prems"(3) and res = "1.prems"(4)
  show ?case
  proof (cases fr)
    case Nil
    with res show ?thesis by (simp add: loop.simps)
  next
    case (Cons nd rest)
    from inv Cons have ok: "node_ok st src nd"
      and nt: "\<And>m p. action nd = Some m \<Longrightarrow> \<not> costar st p m tgt"
      and rest: "frontier_paths st src tgt rest"
      by (auto simp: frontier_paths_def)
    show ?thesis
    proof (cases "loop_body ord st tgt nd rest ep em")
      case Skip
      with res Cons have "loop ord st tgt rest ep em = Inr (Some pth)" by (simp add: loop.simps)
      from "1.IH"(1)[OF Cons Skip sc io rest this] show ?thesis .
    next
      case (Done r)
      with res Cons have r: "r = Inr (Some pth)" by (simp add: loop.simps)
      have ns: "\<not> (state nd \<in> set ep
              \<and> (case action nd of None \<Rightarrow> True | Some m \<Rightarrow> m \<in> set em))"
        using Done by (auto simp: loop_body_def Let_def)
      have chk: "\<And>m ss. action nd = Some m \<Longrightarrow> map_of (movies st) m = Some ss \<Longrightarrow> tgt \<notin> set ss"
      proof
        fix m ss assume a: "action nd = Some m" "map_of (movies st) m = Some ss" "tgt \<in> set ss"
        from nt[OF a(1), of tgt] a(2,3) show False by (simp add: costar_def)
      qed
      note b = Done[unfolded loop_body_def Let_def r, simplified ns if_False]
      from b chk obtain nb where nb: "neighbors_for_person ord st (state nd) = Inr nb"
        by (auto split: option.splits sum.splits bool.splits if_splits)
      from b chk nb have hit: "tgt \<in> set (map snd nb)"
        by (auto split: option.splits sum.splits bool.splits if_splits)
      from b chk nb hit
      have p: "pth = rev ((case find (\<lambda>(m, p). p = tgt) nb of
                           None \<Rightarrow> []
                         | Some (m, p) \<Rightarrow> [(Some m, p)]) @ hops_to_root nd)"
        by (auto split: option.splits sum.splits bool.splits if_splits)
      from hit have "\<exists>x \<in> set nb. (\<lambda>(m, p). p = tgt) x" by auto
      then obtain x where f: "find (\<lambda>(m, p). p = tgt) nb = Some x"
        by (cases "find (\<lambda>(m, p). p = tgt) nb") (auto simp: find_None_iff)
      from find_SomeD[OF f] obtain m where x: "x = (m, tgt)" and xin: "(m, tgt) \<in> set nb"
        by auto
      from neighbors_costar_billed[OF sc io nb xin] have c: "costar st (state nd) m tgt" .
      from p f x have p': "pth = rev (hops_to_root nd) @ [(Some m, tgt)]" by simp
      from node_ok_hops[OF ok] c show ?thesis unfolding p' by (auto simp: valid_path_snoc)
    next
      case (Next fr' ep' em')
      with res Cons have l: "loop ord st tgt fr' ep' em' = Inr (Some pth)" by (simp add: loop.simps)
      have ns: "\<not> (state nd \<in> set ep
              \<and> (case action nd of None \<Rightarrow> True | Some m \<Rightarrow> m \<in> set em))"
        using Next by (auto simp: loop_body_def Let_def)
      note b = Next[unfolded loop_body_def Let_def, simplified ns if_False]
      from b obtain nb where nb: "neighbors_for_person ord st (state nd) = Inr nb"
        by (auto split: option.splits sum.splits bool.splits if_splits)
      from b nb have miss: "tgt \<notin> snd ` set nb"
        by (auto split: option.splits sum.splits bool.splits if_splits)
      from b nb have fr': "fr' = add_children nd ep' em' nb rest"
        by (auto split: option.splits sum.splits bool.splits if_splits)
      from add_children_append[of nd ep' em' nb rest] obtain cs where
        cs: "fr' = rest @ cs"
        and el: "\<forall>c \<in> set cs. \<exists>m p. c = Node p (Some nd) (Some m) \<and> (m, p) \<in> set nb
            \<and> p \<notin> set ep' \<and> m \<notin> set em' \<and> p \<notin> state ` set rest"
        unfolding fr' by blast
      have "frontier_paths st src tgt fr'"
        unfolding frontier_paths_def cs
      proof
        fix n assume "n \<in> set (rest @ cs)"
        then consider "n \<in> set rest" | "n \<in> set cs" by auto
        then show "node_ok st src n \<and> (\<forall>m p. action n = Some m \<longrightarrow> \<not> costar st p m tgt)"
        proof cases
          case 1
          with rest show ?thesis by (simp add: frontier_paths_def)
        next
          case 2
          with el obtain m p where n: "n = Node p (Some nd) (Some m)" and mp: "(m, p) \<in> set nb"
            by blast
          from neighbors_costar_billed[OF sc io nb mp] ok have "node_ok st src n" by (simp add: n)
          moreover have "\<not> costar st p' m tgt" for p'
          proof
            assume "costar st p' m tgt"
            from neighbors_all_stars[OF io nb mp this] miss show False by force
          qed
          ultimately show ?thesis by (simp add: n)
        qed
      qed
      from "1.IH"(2)[OF Cons Next sc io this l] show ?thesis .
    qed
  qed
qed

subsection \<open>Stores that load_data builds\<close>

text \<open>
  A row of stars.csv whose person is no row of people.csv leaves no trace. A row whose
  movie is no row of movies.csv leaves the movie in the set of its person: from the star
  rows (A, M), (B, M) and (A, N), N unknown, \<^verbatim>\<open>load_data\<close> builds a store in which the
  movie set of A names N and the movie table lacks N. Such a store breaks the graph
  invariant.
\<close>

lemma load_data_unknown_person:
  "load_data [''A''] [''M''] [(''A'', ''M''), (''Q'', ''M'')]
     = \<lparr>people = [(''A'', [''M''])], movies = [(''M'', [''A''])]\<rparr>"
  by (simp add: load_data_def load_star_def set_add_def)

lemma load_data_dangling:
  "load_data [''A'', ''B''] [''M''] [(''A'', ''M''), (''B'', ''M''), (''A'', ''N'')] = st_dangling
   \<and> load_data [''A'', ''B'', ''Z''] [''M'', ''K'']
        [(''A'', ''M''), (''B'', ''M''), (''A'', ''N''), (''Z'', ''K'')] = st_apart"
  by (simp add: load_data_def load_star_def set_add_def st_dangling_def st_apart_def)

lemma dangling_not_invariant:
  "\<not> graph_invariant st_dangling \<and> \<not> graph_invariant st_apart"
  by (simp add: graph_invariant_def st_dangling_def st_apart_def)

subsection \<open>The claims about shortest_path\<close>

text \<open>
  C1: for connected persons P and Q, P distinct from Q, both present in the store and P
  with at least one movie, \<^verbatim>\<open>shortest_path(P, Q)\<close> returns a sequence whose length is the
  graph-theoretic distance between P and Q in the person-costar graph. The code breaks
  this on the store that \<^verbatim>\<open>load_data\<close> builds from the star rows (A, M), (B, M) and
  (A, N): A and B are distinct and present, A has movies, both star in M, so they are
  connected at distance 1; and \<^verbatim>\<open>shortest_path('A', 'B')\<close> raises KeyError, whatever the
  iteration order, when \<^verbatim>\<open>neighbors_for_person\<close> looks N up.
\<close>

theorem shortest_path_dangling_KeyError:
  "''A'' \<noteq> ''B''
   \<and> map_of (people st_dangling) ''A'' = Some [''M'', ''N'']
   \<and> map_of (people st_dangling) ''B'' = Some [''M'']
   \<and> connected st_dangling ''A'' ''B''
   \<and> distance st_dangling ''A'' ''B'' = 1
   \<and> shortest_path ord st_dangling ''A'' ''B'' = Inl KeyError"
proof -
  have w: "walk st_dangling ''A'' [''B''] ''B''"
    by (simp add: costars_def costar_def st_dangling_def)
  then have c: "connected st_dangling ''A'' ''B''" unfolding connected_def by blast
  have d: "distance st_dangling ''A'' ''B'' = 1"
    unfolding distance_def
  proof (rule Least_equality)
    from w have "walk st_dangling ''A'' [''B''] ''B'' \<and> length [''B''] = 1" by simp
    then show "\<exists>xs. walk st_dangling ''A'' xs ''B'' \<and> length xs = 1" by (rule exI)
  next
    fix k assume "\<exists>xs. walk st_dangling ''A'' xs ''B'' \<and> length xs = k"
    then obtain xs where "walk st_dangling ''A'' xs ''B''" "length xs = k" by blast
    then show "1 \<le> k" by (cases xs) auto
  qed
  have r: "shortest_path ord st_dangling ''A'' ''B'' = Inl KeyError"
    by (simp add: st_dangling_def shortest_path_def loop.simps loop_body_def
          neighbors_for_person_def)
  from c d r show ?thesis by (simp add: st_dangling_def)
qed

text \<open>
  The failure is confined to movie identifiers that the movie table lacks. On every store
  that satisfies the graph invariant of the data model, and for every order in which the
  neighbour set is iterated, the search between connected persons returns a sequence whose
  length is the distance; the early exit taken while a node is expanded never returns a
  path longer than the shortest one.
\<close>

theorem shortest_path_length_is_distance:
  assumes "graph_invariant st" and "iteration_order ord"
    and "p \<noteq> q"
    and "map_of (people st) p = Some ms" and "ms \<noteq> []"
    and "map_of (people st) q \<noteq> None"
    and "connected st p q"
  shows "\<exists>pth. shortest_path ord st p q = Inr (Some pth) \<and> length pth = distance st p q"
proof -
  from shortest_path_correct[OF assms(1,2,3,4,5)]
  have post: "search_post st p q (shortest_path ord st p q)" .
  from assms(7) obtain w where "walk st p w q" unfolding connected_def by blast
  from walk_valid_path[OF this] have conn: "\<exists>pth. valid_path st p pth q" by blast
  from post conn obtain pth where r: "shortest_path ord st p q = Inr (Some pth)"
    and v: "valid_path st p pth q"
    and mn: "\<forall>pth'. valid_path st p pth' q \<longrightarrow> length pth \<le> length pth'"
    by (auto simp: search_post_def split: sum.splits option.splits)
  from minimal_path_distance[OF v mn] r show ?thesis by simp
qed

theorem shortest_path_length_is_distance_witness:
  "graph_invariant st_chain \<and> iteration_order (id :: set_order)
   \<and> ''A'' \<noteq> ''D''
   \<and> map_of (people st_chain) ''A'' = Some [''M1''] \<and> [''M1''] \<noteq> []
   \<and> map_of (people st_chain) ''D'' \<noteq> None
   \<and> connected st_chain ''A'' ''D''
   \<and> shortest_path id st_chain ''A'' ''D'' = Inr (Some [(Some ''M1'', ''B''), (Some ''M2'', ''D'')])
   \<and> distance st_chain ''A'' ''D'' = 2"
proof -
  have h1: "graph_invariant st_chain" by (simp add: graph_invariant_def st_chain_def)
  have h2: "iteration_order (id :: set_order)" by (rule iteration_order_id)
  have h3: "''A'' \<noteq> ''D''" by simp
  have h4: "map_of (people st_chain) ''A'' = Some [''M1'']" by (simp add: st_chain_def)
  have h5: "[''M1''] \<noteq> []" by simp
  have h6: "map_of (people st_chain) ''D'' \<noteq> None" by (simp add: st_chain_def)
  have "walk st_chain ''A'' [''B'', ''D''] ''D''"
    by (simp add: costars_def costar_def st_chain_def)
  then have h7: "connected st_chain ''A'' ''D''" unfolding connected_def by blast
  have r: "shortest_path id st_chain ''A'' ''D''
             = Inr (Some [(Some ''M1'', ''B''), (Some ''M2'', ''D'')])"
    by code_simp
  from shortest_path_length_is_distance[OF h1 h2 h3 h4 h5 h6 h7] r
  have "distance st_chain ''A'' ''D'' = 2" by simp
  with h1 h2 h3 h4 h5 h6 h7 r show ?thesis by blast
qed

text \<open>
  C2: every non-empty sequence returned by \<^verbatim>\<open>shortest_path(source, target)\<close> is a valid
  alternating path from source to target: the movie of each hop has in its star set both
  the person of the previous hop (the source, for the first hop) and the person of the
  hop, and the person of the last hop is the target. Of the graph invariant of the data
  model the store needs only that every person is in the star set of each of their movies
  that the movie table has; the theorem is used below on a store whose person A names a
  movie that the movie table lacks.
\<close>

theorem shortest_path_valid:
  assumes "people_billed st" and "iteration_order ord"
    and "shortest_path ord st source target = Inr (Some pth)"
    and "pth \<noteq> []"
  shows "(\<forall>i < length pth. hop_ok st source pth i) \<and> snd (last pth) = target"
proof -
  from assms(3,4) have ne: "source \<noteq> target"
    by (auto simp: shortest_path_def)
  with assms(3) have l: "loop ord st target [Node source None None] [] [] = Inr (Some pth)"
    by (auto simp: shortest_path_def split: option.splits if_splits)
  have "frontier_paths st source target [Node source None None]" by (simp add: frontier_paths_def)
  from loop_valid[OF assms(1,2) this l] have "valid_path st source pth target" .
  from valid_path_hops[OF this assms(4)] show ?thesis .
qed

theorem shortest_path_valid_witness:
  "people_billed st_dangling \<and> iteration_order (id :: set_order)
   \<and> shortest_path id st_dangling ''B'' ''A'' = Inr (Some [(Some ''M'', ''A'')])
   \<and> [(Some ''M'', ''A'')] \<noteq> []
   \<and> hop_ok st_dangling ''B'' [(Some ''M'', ''A'')] 0
   \<and> snd (last [(Some ''M'', ''A'')]) = ''A''"
proof -
  have h1: "people_billed st_dangling" by (simp add: people_billed_def st_dangling_def)
  have h2: "iteration_order (id :: set_order)" by (rule iteration_order_id)
  have h3: "shortest_path id st_dangling ''B'' ''A'' = Inr (Some [(Some ''M'', ''A'')])"
    by code_simp
  have h4: "[(Some ''M'', ''A'')] \<noteq> []" by simp
  from shortest_path_valid[OF h1 h2 h3 h4] h1 h2 h3 h4
  show ?thesis by simp
qed

text \<open>
  C4: for a source distinct from the target, \<^verbatim>\<open>shortest_path\<close> raises an explicit error
  when the movie set of the source is empty, and returns not-found, never raising an error,
  when source and target lie in disjoint components. The code breaks the second half on the
  store that \<^verbatim>\<open>load_data\<close> builds from the star rows (A, M), (B, M), (A, N) and (Z, K),
  N unknown: A has movies, no walk of the costar graph joins A and Z, and
  \<^verbatim>\<open>shortest_path('A', 'Z')\<close> raises KeyError, whatever the iteration order, instead of
  returning not-found.
\<close>

theorem shortest_path_disjoint_KeyError:
  "''A'' \<noteq> ''Z''
   \<and> map_of (people st_apart) ''A'' = Some [''M'', ''N'']
   \<and> map_of (people st_apart) ''Z'' = Some [''K'']
   \<and> \<not> connected st_apart ''A'' ''Z''
   \<and> shortest_path ord st_apart ''A'' ''Z'' = Inl KeyError"
proof -
  have "component st_apart [''A'', ''B'']" by (simp add: component_def st_apart_def)
  from component_not_connected[OF this, of "''A''" "''Z''"]
  have c: "\<not> connected st_apart ''A'' ''Z''" by simp
  have r: "shortest_path ord st_apart ''A'' ''Z'' = Inl KeyError"
    by (simp add: st_apart_def shortest_path_def loop.simps loop_body_def
          neighbors_for_person_def)
  from c r show ?thesis by (simp add: st_apart_def)
qed

text \<open>
  On every store that satisfies the graph invariant both outcomes are as specified: for a
  source distinct from the target the search raises the no-movies error when the movie set
  of the source is empty, and returns not-found, raising no error, when the source has a
  movie and no walk joins source and target.
\<close>

theorem shortest_path_failures:
  assumes "graph_invariant st" and "iteration_order ord" and "source \<noteq> target"
    and "map_of (people st) source = Some ms"
  shows "(ms = [] \<longrightarrow> shortest_path ord st source target = Inl NoMovies)
       \<and> (ms \<noteq> [] \<longrightarrow> \<not> connected st source target
            \<longrightarrow> shortest_path ord st source target = Inr None)"
proof (intro conjI impI)
  assume "ms = []"
  with assms(3,4) show "shortest_path ord st source target = Inl NoMovies"
    by (simp add: shortest_path_def)
next
  assume ms: "ms \<noteq> []" and nw: "\<not> connected st source target"
  from shortest_path_correct[OF assms(1,2,3,4) ms]
  have post: "search_post st source target (shortest_path ord st source target)" .
  have "\<not> valid_path st source pth target" for pth
    using valid_path_walk[of st source pth target] nw unfolding connected_def by blast
  with post show "shortest_path ord st source target = Inr None"
    by (auto simp: search_post_def split: sum.splits option.splits)
qed

theorem shortest_path_failures_witness:
  "graph_invariant st_chain \<and> iteration_order (id :: set_order) \<and> ''A'' \<noteq> ''Z''
   \<and> map_of (people st_chain) ''A'' = Some [''M1''] \<and> [''M1''] \<noteq> []
   \<and> \<not> connected st_chain ''A'' ''Z''
   \<and> shortest_path id st_chain ''A'' ''Z'' = Inr None
   \<and> graph_invariant st_loner \<and> ''A'' \<noteq> ''B''
   \<and> map_of (people st_loner) ''A'' = Some []
   \<and> shortest_path id st_loner ''A'' ''B'' = Inl NoMovies"
proof -
  have h1: "graph_invariant st_chain" by (simp add: graph_invariant_def st_chain_def)
  have h2: "iteration_order (id :: set_order)" by (rule iteration_order_id)
  have h3: "''A'' \<noteq> ''Z''" by simp
  have h4: "map_of (people st_chain) ''A'' = Some [''M1'']" by (simp add: st_chain_def)
  have h5: "[''M1''] \<noteq> []" by simp
  have "component st_chain [''A'', ''B'', ''C'', ''D'']"
    by (simp add: component_def st_chain_def)
  from component_not_connected[OF this, of "''A''" "''Z''"]
  have h6: "\<not> connected st_chain ''A'' ''Z''" by simp
  have g1: "graph_invariant st_loner" by (simp add: graph_invariant_def st_loner_def)
  have g3: "''A'' \<noteq> ''B''" by simp
  have g4: "map_of (people st_loner) ''A'' = Some []" by (simp add: st_loner_def)
  from shortest_path_failures[OF h1 h2 h3 h4] shortest_path_failures[OF g1 h2 g3 g4]
    h1 h2 h3 h4 h5 h6 g1 g3 g4
  show ?thesis by simp
qed

text \<open>
  C5, as the claim states it, fails in its reason: a movie is not expanded at most once.
  Searching from A for the unreachable Z in the store below, the loop expands A, B, C and
  D in turn. B and C were both reached through movie M1, so two expanded nodes have M1
  as their incoming movie; and \<^verbatim>\<open>neighbors_for_person\<close> computes the stars of M1 when A
  is expanded and again when B is. \<^verbatim>\<open>explored_movies\<close> only keeps later children out of
  the frontier.
\<close>

theorem movie_traversed_twice_counterexample:
  "map state (expansions id st_chain ''Z'' [Node ''A'' None None] [] [])
     = [''A'', ''B'', ''C'', ''D'']
   \<and> map action (expansions id st_chain ''Z'' [Node ''A'' None None] [] [])
     = [None, Some ''M1'', Some ''M1'', Some ''M2'']
   \<and> neighbors_for_person id st_chain ''A''
     = Inr [(''M1'', ''A''), (''M1'', ''B''), (''M1'', ''C'')]
   \<and> neighbors_for_person id st_chain ''B''
     = Inr [(''M1'', ''A''), (''M1'', ''B''), (''M1'', ''C''), (''M2'', ''B''), (''M2'', ''D'')]"
  by code_simp

text \<open>
  C5, amended: for every finite store the loop of \<^verbatim>\<open>shortest_path\<close> terminates: some
  number of passes suffices for it to return or raise. For every store that satisfies the
  graph invariant, every source with at least one movie and every other target,
  \<^verbatim>\<open>shortest_path\<close> returns a path or not-found, because each person is expanded at most
  once over the whole run: the persons of the expanded nodes are pairwise distinct, so
  there are at most as many expansions as the store has persons, and the loop returns
  within one pass more than that. A movie can be the incoming movie of several expanded
  nodes.
\<close>

theorem shortest_path_terminates:
  "(\<exists>n. loop_fuel n ord st target [Node source None None] [] []
          = Some (loop ord st target [Node source None None] [] []))
   \<and> (graph_invariant st \<longrightarrow> iteration_order ord \<longrightarrow> source \<noteq> target \<longrightarrow>
        map_of (people st) source = Some ms \<longrightarrow> ms \<noteq> [] \<longrightarrow>
          (\<exists>r. shortest_path ord st source target = Inr r)
        \<and> loop_fuel (Suc (length (people st))) ord st target [Node source None None] [] []
            = Some (shortest_path ord st source target)
        \<and> distinct (map state (expansions ord st target [Node source None None] [] []))
        \<and> length (expansions ord st target [Node source None None] [] []) \<le> length (people st))"
proof (intro conjI impI)
  show "\<exists>n. loop_fuel n ord st target [Node source None None] [] []
          = Some (loop ord st target [Node source None None] [] [])"
    by (rule loop_fuel_returns)
next
  assume a: "graph_invariant st" "iteration_order ord" "source \<noteq> target"
    "map_of (people st) source = Some ms" "ms \<noteq> []"
  let ?xs = "expansions ord st target [Node source None None] [] []"
  note inv = search_inv_initial[OF a(3,4)]
  from shortest_path_correct[OF a]
  have 1: "\<exists>r. shortest_path ord st source target = Inr r"
    by (auto simp: search_post_def split: sum.splits)
  from expansions_once[OF a(1,2) inv]
  have d: "distinct (map state ?xs)" and sub: "state ` set ?xs \<subseteq> fst ` set (people st)"
    by auto
  from d have "length ?xs = card (state ` set ?xs)"
    by (metis distinct_card length_map set_map)
  also have "\<dots> \<le> card (fst ` set (people st))" using sub by (intro card_mono) auto
  also have "\<dots> \<le> length (people st)"
    by (metis card_length length_map set_map)
  finally have le: "length ?xs \<le> length (people st)" .
  then have "length ?xs < Suc (length (people st))" by simp
  from loop_fuel_enough[OF a(1,2) inv this] a(3,4,5)
  have 2: "loop_fuel (Suc (length (people st))) ord st target [Node source None None] [] []
           = Some (shortest_path ord st source target)"
    by (simp add: shortest_path_def)
  show "\<exists>r. shortest_path ord st source target = Inr r" by (rule 1)
  show "loop_fuel (Suc (length (people st))) ord st target [Node source None None] [] []
           = Some (shortest_path ord st source target)" by (rule 2)
  show "distinct (map state ?xs)" by (rule d)
  show "length ?xs \<le> length (people st)" by (rule le)
qed

theorem shortest_path_terminates_witness:
  "graph_invariant st_chain \<and> iteration_order (id :: set_order) \<and> ''A'' \<noteq> ''Z''
   \<and> map_of (people st_chain) ''A'' = Some [''M1''] \<and> [''M1''] \<noteq> []
   \<and> (\<exists>r. shortest_path id st_chain ''A'' ''Z'' = Inr r)
   \<and> loop_fuel (Suc (length (people st_chain))) id st_chain ''Z'' [Node ''A'' None None] [] []
        = Some (shortest_path id st_chain ''A'' ''Z'')
   \<and> distinct (map state (expansions id st_chain ''Z'' [Node ''A'' None None] [] []))
   \<and> length (expansions id st_chain ''Z'' [Node ''A'' None None] [] []) \<le> length (people st_chain)"
proof -
  have h1: "graph_invariant st_chain" by (simp add: graph_invariant_def st_chain_def)
  have h2: "iteration_order (id :: set_order)" by (rule iteration_order_id)
  have h3: "''A'' \<noteq> ''Z''" by simp
  have h4: "map_of (people st_chain) ''A'' = Some [''M1'']" by (simp add: st_chain_def)
  have h5: "[''M1''] \<noteq> []" by simp
  from shortest_path_terminates[of id st_chain "''Z''" "''A''" "[''M1'']"] h1 h2 h3 h4 h5
  show ?thesis by blast
qed

section \<open>Tic-tac-toe: proofs\<close>

subsection \<open>Legal moves and turns\<close>

lemma actions_iff:
  "(i, j) \<in> set (actions b) \<longleftrightarrow> in_range i \<and> in_range j \<and> cell_at b i j = None"
  by (auto simp: actions_def in_range_def)

lemma actions_result:
  "a \<in> set (actions b) \<longleftrightarrow> (\<exists>b'. result b a = Inr b')"
  by (cases a) (simp add: actions_iff result_Inr)

lemma x_turn_player: "x_turn b \<Longrightarrow> player b = X"
  by (simp add: x_turn_def player_def)

lemma o_turn_player: "o_turn b \<Longrightarrow> player b = O'"
  by (simp add: o_turn_def player_def)

lemma x_turn_result:
  assumes "x_turn b" "result b a = Inr b'"
  shows "o_turn b'"
proof -
  obtain i j where a: "a = (i, j)" by (cases a)
  note r = assms(2)[unfolded a]
  from result_count[OF r, of "Some X"] result_count[OF r, of "Some O'"] assms(1)
  show ?thesis by (simp add: x_turn_player[OF assms(1)] o_turn_def x_turn_def)
qed

lemma o_turn_result:
  assumes "o_turn b" "result b a = Inr b'"
  shows "x_turn b'"
proof -
  obtain i j where a: "a = (i, j)" by (cases a)
  note r = assms(2)[unfolded a]
  from result_count[OF r, of "Some X"] result_count[OF r, of "Some O'"] assms(1)
  show ?thesis by (simp add: o_turn_player[OF assms(1)] o_turn_def x_turn_def)
qed

lemma reachable_turn: "reachable b \<Longrightarrow> x_turn b \<or> o_turn b"
proof (induction rule: reachable.induct)
  case initial
  show ?case by (simp add: x_turn_def initial_state_def)
next
  case (move b a b')
  then show ?case using x_turn_result o_turn_result by blast
qed

subsection \<open>result\<close>

lemma index_inj:
  "in_range i \<Longrightarrow> in_range j \<Longrightarrow> in_range i' \<Longrightarrow> in_range j' \<Longrightarrow>
     nat (3 * i + j) = nat (3 * i' + j') \<longleftrightarrow> i = i' \<and> j = j'"
  unfolding in_range_def by (elim disjE; simp)

lemma cell_at_set:
  assumes "in_range i" "in_range j" "in_range i'" "in_range j'"
  shows "cell_at (set_row b i (set_cell (get_row b i) j v)) i' j'
           = (if i' = i \<and> j' = j then v else cell_at b i' j')"
proof -
  have "cell_at (set_row b i (set_cell (get_row b i) j v)) i' j'
          = (cells b)[nat (3 * i + j) := v] ! nat (3 * i' + j')"
    by (simp add: cell_at_nth[OF assms(3,4)] cells_set[OF assms(1,2)])
  also have "\<dots> = (if nat (3 * i + j) = nat (3 * i' + j') then v else cells b ! nat (3 * i' + j'))"
    using index_bound[OF assms(1,2)] index_bound[OF assms(3,4)]
    by (simp add: nth_list_update length_cells)
  finally show ?thesis
    using index_inj[OF assms] by (auto simp: cell_at_nth[OF assms(3,4)])
qed

lemma deref_append: "allocated h r \<Longrightarrow> deref (h @ xs) r = deref h r"
  by (cases r rule: prod_cases3) (simp add: nth_append)

lemma deref_update:
  "allocated h r \<Longrightarrow> length h \<le> k \<Longrightarrow> deref (h'[k := x]) r = deref h' r"
  by (cases r rule: prod_cases3) simp

lemma deref_fresh:
  assumes "in_range i"
  shows "deref ((h @ [get_row b 0, get_row b 1, get_row b 2])
                  [row_address (length h, Suc (length h), Suc (Suc (length h))) i := x])
               (length h, Suc (length h), Suc (Suc (length h)))
         = set_row b i x"
  using assms unfolding in_range_def
  by (cases b rule: prod_cases3) (auto simp: nth_append)

lemma fresh_row:
  assumes "in_range i"
  shows "(h @ [get_row b 0, get_row b 1, get_row b 2])
            ! row_address (length h, Suc (length h), Suc (Suc (length h))) i = get_row b i"
  using assms unfolding in_range_def
  by (auto simp: nth_append)

lemma result_on_heap_valid:
  assumes al: "allocated h board" and ri: "in_range i" and rj: "in_range j"
    and e: "cell_at (deref h board) i j = None"
  shows "result_on_heap h board (i, j)
           = ((h @ [get_row (deref h board) 0, get_row (deref h board) 1,
                    get_row (deref h board) 2])
                [row_address (length h, Suc (length h), Suc (Suc (length h))) i :=
                   set_cell (get_row (deref h board) i) j (Some (player (deref h board)))],
              Inr (length h, Suc (length h), Suc (Suc (length h))))"
proof -
  have c: "\<not> (i < 0 \<or> i \<ge> 3 \<or> j < 0 \<or> j \<ge> 3 \<or> cell_at (deref h board) i j \<noteq> None)"
    using ri rj e by (simp add: in_range_iff)
  show ?thesis
    unfolding result_on_heap_def prod.case if_not_P[OF c] Let_def
      deref_append[OF al] fresh_row[OF ri] ..
qed

text \<open>
  C7: \<^verbatim>\<open>result(board, action)\<close> raises the invalid-move error if and only if the
  coordinate (i, j) of the action lies outside the 3 by 3 range or cell (i, j) of the
  board is occupied. In every case the input board is left unchanged: on the heap, the
  rows of the argument hold after the call what they held before. On success the returned
  board differs from the input only at (i, j), which holds the mark of the active player.
  The heap function and the function on board values used by the search agree.
\<close>

theorem result_invalid_or_fresh:
  assumes "allocated h board"
  shows "deref (fst (result_on_heap h board (i, j))) board = deref h board
       \<and> (snd (result_on_heap h board (i, j)) = Inl InvalidAction \<longleftrightarrow>
            i < 0 \<or> 3 \<le> i \<or> j < 0 \<or> 3 \<le> j \<or> cell_at (deref h board) i j \<noteq> None)
       \<and> (result (deref h board) (i, j) = Inl InvalidAction \<longleftrightarrow>
            i < 0 \<or> 3 \<le> i \<or> j < 0 \<or> 3 \<le> j \<or> cell_at (deref h board) i j \<noteq> None)
       \<and> (\<forall>new_board. snd (result_on_heap h board (i, j)) = Inr new_board \<longrightarrow>
            result (deref h board) (i, j)
              = Inr (deref (fst (result_on_heap h board (i, j))) new_board)
          \<and> cell_at (deref (fst (result_on_heap h board (i, j))) new_board) i j
              = Some (player (deref h board))
          \<and> (\<forall>i' j'. in_range i' \<longrightarrow> in_range j' \<longrightarrow> (i', j') \<noteq> (i, j) \<longrightarrow>
                cell_at (deref (fst (result_on_heap h board (i, j))) new_board) i' j'
                  = cell_at (deref h board) i' j'))"
proof (cases "in_range i \<and> in_range j \<and> cell_at (deref h board) i j = None")
  case False
  then have inv: "i < 0 \<or> 3 \<le> i \<or> j < 0 \<or> 3 \<le> j \<or> cell_at (deref h board) i j \<noteq> None"
    by (auto simp: in_range_iff)
  then have "result_on_heap h board (i, j) = (h, Inl InvalidAction)"
    by (simp add: result_on_heap_def)
  moreover from inv have "result (deref h board) (i, j) = Inl InvalidAction"
    by (simp add: result_def)
  ultimately show ?thesis using inv by simp
next
  case True
  then have ri: "in_range i" and rj: "in_range j" and e: "cell_at (deref h board) i j = None"
    by auto
  let ?b = "deref h board"
  let ?nb = "(length h, Suc (length h), Suc (Suc (length h)))"
  let ?row = "set_cell (get_row ?b i) j (Some (player ?b))"
  define h' where
    "h' = (h @ [get_row ?b 0, get_row ?b 1, get_row ?b 2])[row_address ?nb i := ?row]"
  define nb where "nb = ?nb"
  have r: "result_on_heap h board (i, j) = (h', Inr nb)"
    unfolding h'_def nb_def by (rule result_on_heap_valid[OF assms ri rj e])
  have k: "length h \<le> row_address ?nb i" by simp
  have same: "deref h' board = ?b"
    unfolding h'_def deref_update[OF assms k] deref_append[OF assms] ..
  have new: "deref h' nb = set_row ?b i ?row"
    unfolding h'_def nb_def by (rule deref_fresh[OF ri])
  have valid: "\<not> (i < 0 \<or> 3 \<le> i \<or> j < 0 \<or> 3 \<le> j \<or> cell_at ?b i j \<noteq> None)"
    using ri rj e by (simp add: in_range_iff)
  have pure: "result ?b (i, j) = Inr (deref h' nb)"
    unfolding new using ri rj e by (simp add: result_Inr)
  have at: "cell_at (deref h' nb) i j = Some (player ?b)"
    unfolding new by (simp add: cell_at_set[OF ri rj ri rj])
  have other: "cell_at (deref h' nb) i' j' = cell_at ?b i' j'"
    if "in_range i'" "in_range j'" "(i', j') \<noteq> (i, j)" for i' j'
    unfolding new using that(3) by (auto simp: cell_at_set[OF ri rj that(1,2)])
  show ?thesis
    unfolding r fst_conv snd_conv
    using same valid pure at other by simp
qed

theorem result_invalid_or_fresh_witness:
  "allocated heap0 (0, 1, 2)
   \<and> deref (fst (result_on_heap heap0 (0, 1, 2) (0, 0))) (0, 1, 2) = deref heap0 (0, 1, 2)
   \<and> snd (result_on_heap heap0 (0, 1, 2) (0, 0)) = Inr (3, 4, 5)
   \<and> cell_at (deref (fst (result_on_heap heap0 (0, 1, 2) (0, 0))) (3, 4, 5)) 0 0
        = Some (player (deref heap0 (0, 1, 2)))
   \<and> deref (fst (result_on_heap heap0 (0, 1, 2) (1, 1))) (0, 1, 2) = deref heap0 (0, 1, 2)
   \<and> snd (result_on_heap heap0 (0, 1, 2) (1, 1)) = Inl InvalidAction"
proof -
  have h: "allocated heap0 (0, 1, 2)" by (simp add: heap0_def)
  have r: "snd (result_on_heap heap0 (0, 1, 2) (0, 0)) = Inr (3, 4, 5)"
    by (simp add: result_on_heap_def heap0_def cell_at_def Let_def)
  have c: "cell_at (deref heap0 (0, 1, 2)) 1 1 \<noteq> None"
    by (simp add: heap0_def cell_at_def)
  from result_invalid_or_fresh[OF h, of 0 0] result_invalid_or_fresh[OF h, of 1 1] h r c
  show ?thesis by blast
qed

subsection \<open>The search never applies an illegal move\<close>

lemma not_terminal_actions:
  assumes "\<not> terminal b"
  shows "actions b \<noteq> []"
proof -
  from assms have "\<not> list_all (\<lambda>c. c \<noteq> None) (cells b)" by (simp add: terminal_def)
  then obtain k where k: "k < 9" "cells b ! k = None"
    by (auto simp: list_all_length length_cells)
  define i j where "i = int k div 3" and "j = int k mod 3"
  have r: "in_range i" "in_range j" and e: "nat (3 * i + j) = k"
    using k(1) unfolding i_def j_def in_range_def by auto
  from cell_at_nth[OF r, of b] e k(2) have "cell_at b i j = None" by simp
  with r have "(i, j) \<in> set (actions b)" by (simp add: actions_iff)
  then show ?thesis by auto
qed

lemma finite_score_max: "finite_score s \<Longrightarrow> finite_score v \<or> v = NegInf \<Longrightarrow> finite_score (max v s)"
  by (cases v; cases s) (auto simp: finite_score_def max_def)

lemma finite_score_min: "finite_score s \<Longrightarrow> finite_score v \<or> v = PosInf \<Longrightarrow> finite_score (min v s)"
  by (cases v; cases s) (auto simp: finite_score_def min_def)

lemma finite_score_bounds: "finite_score s \<Longrightarrow> NegInf < s \<and> s < PosInf"
  by (cases s) (simp_all add: finite_score_def less_score_def)

lemma search_finite:
  fixes ord :: action_order
  shows "iteration_order ord \<Longrightarrow> \<exists>r. max_value ord b lo hi = Inr r \<and> finite_score r"
    and "iteration_order ord \<Longrightarrow> set as \<subseteq> set (actions b) \<Longrightarrow>
           finite_score v \<or> (v = NegInf \<and> as \<noteq> []) \<Longrightarrow>
           \<exists>r. max_loop ord b as v lo hi = Inr r \<and> finite_score r"
    and "iteration_order ord \<Longrightarrow> \<exists>r. min_value ord b lo hi = Inr r \<and> finite_score r"
    and "iteration_order ord \<Longrightarrow> set as \<subseteq> set (actions b) \<Longrightarrow>
           finite_score v \<or> (v = PosInf \<and> as \<noteq> []) \<Longrightarrow>
           \<exists>r. min_loop ord b as v lo hi = Inr r \<and> finite_score r"
proof (induction ord b lo hi and ord b as v lo hi and ord b lo hi and ord b as v lo hi
       rule: max_value_max_loop_min_value_min_loop.induct)
  case (1 ord b lo hi)
  show ?case
  proof (cases "terminal b")
    case True
    then show ?thesis by (simp add: max_value.simps(1) finite_score_def)
  next
    case False
    from not_terminal_actions[OF False] iteration_order_set[OF "1.prems", of "actions b"]
    have ne: "ord (actions b) \<noteq> []" by (metis set_empty)
    have sub: "set (ord (actions b)) \<subseteq> set (actions b)"
      by (simp add: iteration_order_set[OF "1.prems"])
    from "1.IH"[OF False "1.prems" sub] ne False show ?thesis
      by (simp add: max_value.simps(1))
  qed
next
  case (2 ord b v lo hi)
  then show ?case by simp
next
  case (3 ord b a as v lo hi)
  from "3.prems"(2) obtain b' where b': "result b a = Inr b'" by (auto simp: actions_result)
  from "3.prems"(2) have sub: "set as \<subseteq> set (actions b)" by simp
  from "3.IH"(1)[OF b' "3.prems"(1)] obtain s where s: "min_value ord b' lo hi = Inr s"
    and fs: "finite_score s" by blast
  have fv: "finite_score (max v s)" using fs "3.prems"(3) by (auto intro: finite_score_max)
  show ?case
  proof (cases "hi \<le> max v s")
    case True
    with fv show ?thesis by (simp add: b' s Let_def)
  next
    case False
    from "3.IH"(2)[OF b' s refl refl False "3.prems"(1) sub] fv False show ?thesis
      by (simp add: b' s Let_def)
  qed
next
  case (4 ord b lo hi)
  show ?case
  proof (cases "terminal b")
    case True
    then show ?thesis by (simp add: min_value.simps(1) finite_score_def)
  next
    case False
    from not_terminal_actions[OF False] iteration_order_set[OF "4.prems", of "actions b"]
    have ne: "ord (actions b) \<noteq> []" by (metis set_empty)
    have sub: "set (ord (actions b)) \<subseteq> set (actions b)"
      by (simp add: iteration_order_set[OF "4.prems"])
    from "4.IH"[OF False "4.prems" sub] ne False show ?thesis
      by (simp add: min_value.simps(1))
  qed
next
  case (5 ord b v lo hi)
  then show ?case by simp
next
  case (6 ord b a as v lo hi)
  from "6.prems"(2) obtain b' where b': "result b a = Inr b'" by (auto simp: actions_result)
  from "6.prems"(2) have sub: "set as \<subseteq> set (actions b)" by simp
  from "6.IH"(1)[OF b' "6.prems"(1)] obtain s where s: "max_value ord b' lo hi = Inr s"
    and fs: "finite_score s" by blast
  have fv: "finite_score (min v s)" using fs "6.prems"(3) by (auto intro: finite_score_min)
  show ?case
  proof (cases "min v s \<le> lo")
    case True
    with fv show ?thesis by (simp add: b' s Let_def)
  next
    case False
    from "6.IH"(2)[OF b' s refl refl False "6.prems"(1) sub] fv False show ?thesis
      by (simp add: b' s Let_def)
  qed
qed

lemma max_root_move:
  "iteration_order ord \<Longrightarrow> set as \<subseteq> set (actions b) \<Longrightarrow>
     mv \<noteq> None \<or> (as \<noteq> [] \<and> best = NegInf) \<Longrightarrow>
     \<exists>a. max_root ord b as best mv lo = Inr (Some a)"
proof (induction as arbitrary: best mv lo)
  case Nil
  then show ?case by auto
next
  case (Cons a as)
  from Cons.prems(2) obtain b' where b': "result b a = Inr b'" by (auto simp: actions_result)
  from Cons.prems(2) have sub: "set as \<subseteq> set (actions b)" by simp
  from search_finite(3)[OF Cons.prems(1)] obtain s where s: "min_value ord b' lo PosInf = Inr s"
    and fs: "finite_score s" by blast
  show ?case
  proof (cases "best < s")
    case True
    from Cons.IH[OF Cons.prems(1) sub, of "Some a" s "max lo s"] True show ?thesis
      by (simp add: b' s)
  next
    case False
    with finite_score_bounds[OF fs] have "best \<noteq> NegInf" by auto
    with Cons.prems(3) have "mv \<noteq> None" by simp
    from Cons.IH[OF Cons.prems(1) sub, of mv best lo] this False show ?thesis
      by (simp add: b' s)
  qed
qed

lemma min_root_move:
  "iteration_order ord \<Longrightarrow> set as \<subseteq> set (actions b) \<Longrightarrow>
     mv \<noteq> None \<or> (as \<noteq> [] \<and> best = PosInf) \<Longrightarrow>
     \<exists>a. min_root ord b as best mv hi = Inr (Some a)"
proof (induction as arbitrary: best mv hi)
  case Nil
  then show ?case by auto
next
  case (Cons a as)
  from Cons.prems(2) obtain b' where b': "result b a = Inr b'" by (auto simp: actions_result)
  from Cons.prems(2) have sub: "set as \<subseteq> set (actions b)" by simp
  from search_finite(1)[OF Cons.prems(1)] obtain s where s: "max_value ord b' NegInf hi = Inr s"
    and fs: "finite_score s" by blast
  show ?case
  proof (cases "s < best")
    case True
    from Cons.IH[OF Cons.prems(1) sub, of "Some a" s "min hi s"] True show ?thesis
      by (simp add: b' s)
  next
    case False
    with finite_score_bounds[OF fs] have "best \<noteq> PosInf" by auto
    with Cons.prems(3) have "mv \<noteq> None" by simp
    from Cons.IH[OF Cons.prems(1) sub, of mv best hi] this False show ?thesis
      by (simp add: b' s)
  qed
qed

lemma minimax_move:
  assumes io: "iteration_order ord" and nt: "\<not> terminal b"
  shows "\<exists>a. minimax ord b = Inr (Some a)"
proof -
  from not_terminal_actions[OF nt] iteration_order_set[OF io, of "actions b"]
  have ne: "ord (actions b) \<noteq> []" by (metis set_empty)
  have sub: "set (ord (actions b)) \<subseteq> set (actions b)"
    by (simp add: iteration_order_set[OF io])
  from max_root_move[OF io sub, of None NegInf NegInf] min_root_move[OF io sub, of None PosInf PosInf]
    ne nt
  show ?thesis by (simp add: minimax_def)
qed

text \<open>
  C8: for every board, \<^verbatim>\<open>minimax\<close> and its helpers \<^verbatim>\<open>max_value\<close> and \<^verbatim>\<open>min_value\<close> apply
  \<^verbatim>\<open>result\<close> only to moves drawn from \<^verbatim>\<open>actions\<close> of the board being expanded, to which
  \<^verbatim>\<open>result\<close> does not raise; so \<^verbatim>\<open>minimax\<close> never raises the invalid-move error, whatever
  the order in which the action sets are iterated.
\<close>

theorem minimax_no_invalid_move:
  assumes "iteration_order ord"
  shows "(\<forall>a \<in> set (ord (actions b)). result b a \<noteq> Inl InvalidAction)
       \<and> minimax ord b \<noteq> Inl InvalidAction"
proof
  show "\<forall>a \<in> set (ord (actions b)). result b a \<noteq> Inl InvalidAction"
    using actions_result[of _ b] by (auto simp: iteration_order_set[OF assms])
  show "minimax ord b \<noteq> Inl InvalidAction"
  proof (cases "terminal b")
    case True
    then show ?thesis by (simp add: minimax_def)
  next
    case False
    from minimax_move[OF assms False] show ?thesis by auto
  qed
qed

theorem minimax_no_invalid_move_witness:
  "iteration_order (id :: action_order)
   \<and> (1, 1) \<in> set (id (actions initial_state))
   \<and> result initial_state (1, 1) \<noteq> Inl InvalidAction
   \<and> minimax id initial_state \<noteq> Inl InvalidAction"
proof -
  have h1: "iteration_order (id :: action_order)" by (rule iteration_order_id)
  have h2: "(1, 1) \<in> set (id (actions initial_state))"
    by (simp add: actions_def initial_state_def cell_at_def)
  from minimax_no_invalid_move[OF h1, of initial_state] h1 h2 show ?thesis by blast
qed

subsection \<open>Pruning does not change the result\<close>

lemma sound_max_cut:
  assumes "v \<le> lo" "lo < hi" "sound lo hi t s" "hi \<le> max v s"
  shows "sound lo hi (max v (max t m)) (max v s)"
  using assms unfolding sound_def by (auto simp: max_def split: if_splits)

lemma sound_max_step:
  assumes "v \<le> lo" "lo < hi" "sound lo hi t s" "\<not> hi \<le> max v s"
    and "sound (max lo (max v s)) hi (max (max v s) m) r" "max v s \<le> r"
  shows "sound lo hi (max v (max t m)) r"
  using assms unfolding sound_def by (auto simp: max_def split: if_splits)

lemma sound_min_cut:
  assumes "hi \<le> v" "lo < hi" "sound lo hi t s" "min v s \<le> lo"
  shows "sound lo hi (min v (min t m)) (min v s)"
  using assms unfolding sound_def by (auto simp: min_def split: if_splits)

lemma sound_min_step:
  assumes "hi \<le> v" "lo < hi" "sound lo hi t s" "\<not> min v s \<le> lo"
    and "sound lo (min hi (min v s)) (min (min v s) m) r" "r \<le> min v s"
  shows "sound lo hi (min v (min t m)) r"
  using assms unfolding sound_def by (auto simp: min_def split: if_splits)

lemma max_of_simps: "max_of b [] = NegInf" "max_of b (a # as) = max (child_value b a) (max_of b as)"
  by (simp_all add: max_of_def)

lemma min_of_simps: "min_of b [] = PosInf" "min_of b (a # as) = min (child_value b a) (min_of b as)"
  by (simp_all add: min_of_def)

lemma NegInf_least [simp]: "NegInf \<le> (s :: score)" "max NegInf s = s" "max s NegInf = s"
  by (cases s; simp add: max_def)+

lemma PosInf_greatest [simp]: "(s :: score) \<le> PosInf" "min PosInf s = s" "min s PosInf = s"
  by (cases s; simp add: min_def)+

lemma fold_max_foldr: "fold max xs (z :: score) = foldr max xs z"
proof -
  have "foldr max xs = fold (max :: score \<Rightarrow> score \<Rightarrow> score) xs"
    by (rule foldr_fold) (auto simp: fun_eq_iff max.left_commute)
  then show ?thesis by simp
qed

lemma fold_min_foldr: "fold min xs (z :: score) = foldr min xs z"
proof -
  have "foldr min xs = fold (min :: score \<Rightarrow> score \<Rightarrow> score) xs"
    by (rule foldr_fold) (auto simp: fun_eq_iff min.left_commute)
  then show ?thesis by simp
qed

lemma fold_max_perm: "mset xs = mset ys \<Longrightarrow> fold max xs (z :: score) = fold max ys z"
  by (rule fun_cong[OF fold_multiset_equiv]) (auto simp: fun_eq_iff max.left_commute)

lemma fold_min_perm: "mset xs = mset ys \<Longrightarrow> fold min xs (z :: score) = fold min ys z"
  by (rule fun_cong[OF fold_multiset_equiv]) (auto simp: fun_eq_iff min.left_commute)

lemma max_of_order: "iteration_order ord \<Longrightarrow> max_of b (ord as) = max_of b as"
  unfolding max_of_def fold_max_foldr[symmetric]
  by (rule fold_max_perm) (simp add: iteration_order_def)

lemma min_of_order: "iteration_order ord \<Longrightarrow> min_of b (ord as) = min_of b as"
  unfolding min_of_def fold_min_foldr[symmetric]
  by (rule fold_min_perm) (simp add: iteration_order_def)

lemma minimax_value_terminal: "terminal b \<Longrightarrow> minimax_value b = Fin (utility b)"
  by (simp add: minimax_value.simps)

lemma minimax_value_x: "\<not> terminal b \<Longrightarrow> x_turn b \<Longrightarrow> minimax_value b = max_of b (actions b)"
  by (subst minimax_value.simps)
     (simp add: x_turn_player max_of_def fold_max_foldr child_value_def[abs_def])

lemma minimax_value_o: "\<not> terminal b \<Longrightarrow> o_turn b \<Longrightarrow> minimax_value b = min_of b (actions b)"
  by (subst minimax_value.simps)
     (simp add: o_turn_player min_of_def fold_min_foldr child_value_def[abs_def])

lemma sound_refl: "sound lo hi v v"
  by (simp add: sound_def)

text \<open>
  The pruned value functions, called inside a window \<open>lo < hi\<close> on a board where it is
  the right player's turn, return a value that stands in the window property to the
  unpruned value; the loops do so for the best value among the actions tried so far.
\<close>

lemma alpha_beta:
  fixes ord :: action_order
  shows "iteration_order ord \<Longrightarrow> x_turn b \<Longrightarrow> lo < hi \<Longrightarrow>
           \<exists>r. max_value ord b lo hi = Inr r \<and> sound lo hi (minimax_value b) r \<and> finite_score r"
    and "iteration_order ord \<Longrightarrow> x_turn b \<Longrightarrow> set as \<subseteq> set (actions b) \<Longrightarrow> v \<le> lo \<Longrightarrow> lo < hi \<Longrightarrow>
           finite_score v \<or> (v = NegInf \<and> as \<noteq> []) \<Longrightarrow>
           \<exists>r. max_loop ord b as v lo hi = Inr r \<and> sound lo hi (max v (max_of b as)) r
               \<and> v \<le> r \<and> finite_score r"
    and "iteration_order ord \<Longrightarrow> o_turn b \<Longrightarrow> lo < hi \<Longrightarrow>
           \<exists>r. min_value ord b lo hi = Inr r \<and> sound lo hi (minimax_value b) r \<and> finite_score r"
    and "iteration_order ord \<Longrightarrow> o_turn b \<Longrightarrow> set as \<subseteq> set (actions b) \<Longrightarrow> hi \<le> v \<Longrightarrow> lo < hi \<Longrightarrow>
           finite_score v \<or> (v = PosInf \<and> as \<noteq> []) \<Longrightarrow>
           \<exists>r. min_loop ord b as v lo hi = Inr r \<and> sound lo hi (min v (min_of b as)) r
               \<and> r \<le> v \<and> finite_score r"
proof (induction ord b lo hi and ord b as v lo hi and ord b lo hi and ord b as v lo hi
       rule: max_value_max_loop_min_value_min_loop.induct)
  case (1 ord b lo hi)
  show ?case
  proof (cases "terminal b")
    case True
    then show ?thesis
      by (simp add: max_value.simps(1) minimax_value_terminal sound_refl finite_score_def)
  next
    case False
    from not_terminal_actions[OF False] iteration_order_set[OF "1.prems"(1), of "actions b"]
    have ne: "ord (actions b) \<noteq> []" by (metis set_empty)
    have sub: "set (ord (actions b)) \<subseteq> set (actions b)"
      by (simp add: iteration_order_set[OF "1.prems"(1)])
    from "1.IH"[OF False "1.prems"(1,2) sub _ "1.prems"(3)] ne
    obtain r where "max_loop ord b (ord (actions b)) NegInf lo hi = Inr r"
      "sound lo hi (max NegInf (max_of b (ord (actions b)))) r" "finite_score r"
      by auto
    with False show ?thesis
      by (simp add: max_value.simps(1) minimax_value_x[OF False "1.prems"(2)]
            max_of_order[OF "1.prems"(1)])
  qed
next
  case (2 ord b v lo hi)
  then show ?case by (simp add: max_of_simps sound_refl)
next
  case (3 ord b a as v lo hi)
  note io = "3.prems"(1) and xt = "3.prems"(2)
  from "3.prems"(3) have ain: "a \<in> set (actions b)" and sub: "set as \<subseteq> set (actions b)" by auto
  from ain obtain b' where b': "result b a = Inr b'" by (auto simp: actions_result)
  have ot: "o_turn b'" using x_turn_result[OF xt b'] .
  from "3.IH"(1)[OF b' io ot "3.prems"(5)] obtain s where
    s: "min_value ord b' lo hi = Inr s" and sd: "sound lo hi (minimax_value b') s"
    and fs: "finite_score s" by blast
  have t: "child_value b a = minimax_value b'" by (simp add: child_value_def b')
  have fv: "finite_score (max v s)" using fs "3.prems"(6) by (auto intro: finite_score_max)
  show ?case
  proof (cases "hi \<le> max v s")
    case True
    from sound_max_cut[OF "3.prems"(4,5) sd True, of "max_of b as"] True fv show ?thesis
      by (simp add: b' s max_of_simps t Let_def)
  next
    case False
    have p1: "max v s \<le> max lo (max v s)" by (rule max.cobounded2)
    have p2: "max lo (max v s) < hi" using False "3.prems"(5) by (simp add: not_le)
    from "3.IH"(2)[OF b' s refl refl False io xt sub p1 p2] fv
    obtain r where r: "max_loop ord b as (max v s) (max lo (max v s)) hi = Inr r"
      and rs: "sound (max lo (max v s)) hi (max (max v s) (max_of b as)) r"
      and rl: "max v s \<le> r" and rf: "finite_score r" by blast
    from sound_max_step[OF "3.prems"(4,5) sd False rs rl]
    have "sound lo hi (max v (max (minimax_value b') (max_of b as))) r" .
    moreover have "v \<le> r" using rl by simp
    ultimately show ?thesis using r rf False
      by (simp add: b' s max_of_simps t Let_def)
  qed
next
  case (4 ord b lo hi)
  show ?case
  proof (cases "terminal b")
    case True
    then show ?thesis
      by (simp add: min_value.simps(1) minimax_value_terminal sound_refl finite_score_def)
  next
    case False
    from not_terminal_actions[OF False] iteration_order_set[OF "4.prems"(1), of "actions b"]
    have ne: "ord (actions b) \<noteq> []" by (metis set_empty)
    have sub: "set (ord (actions b)) \<subseteq> set (actions b)"
      by (simp add: iteration_order_set[OF "4.prems"(1)])
    from "4.IH"[OF False "4.prems"(1,2) sub _ "4.prems"(3)] ne
    obtain r where "min_loop ord b (ord (actions b)) PosInf lo hi = Inr r"
      "sound lo hi (min PosInf (min_of b (ord (actions b)))) r" "finite_score r"
      by auto
    with False show ?thesis
      by (simp add: min_value.simps(1) minimax_value_o[OF False "4.prems"(2)]
            min_of_order[OF "4.prems"(1)])
  qed
next
  case (5 ord b v lo hi)
  then show ?case by (simp add: min_of_simps sound_refl)
next
  case (6 ord b a as v lo hi)
  note io = "6.prems"(1) and ot = "6.prems"(2)
  from "6.prems"(3) have ain: "a \<in> set (actions b)" and sub: "set as \<subseteq> set (actions b)" by auto
  from ain obtain b' where b': "result b a = Inr b'" by (auto simp: actions_result)
  have xt: "x_turn b'" using o_turn_result[OF ot b'] .
  from "6.IH"(1)[OF b' io xt "6.prems"(5)] obtain s where
    s: "max_value ord b' lo hi = Inr s" and sd: "sound lo hi (minimax_value b') s"
    and fs: "finite_score s" by blast
  have t: "child_value b a = minimax_value b'" by (simp add: child_value_def b')
  have fv: "finite_score (min v s)" using fs "6.prems"(6) by (auto intro: finite_score_min)
  show ?case
  proof (cases "min v s \<le> lo")
    case True
    from sound_min_cut[OF "6.prems"(4,5) sd True, of "min_of b as"] True fv show ?thesis
      by (simp add: b' s min_of_simps t Let_def)
  next
    case False
    have p1: "min hi (min v s) \<le> min v s" by (rule min.cobounded2)
    have p2: "lo < min hi (min v s)" using False "6.prems"(5) by (simp add: not_le)
    from "6.IH"(2)[OF b' s refl refl False io ot sub p1 p2] fv
    obtain r where r: "min_loop ord b as (min v s) lo (min hi (min v s)) = Inr r"
      and rs: "sound lo (min hi (min v s)) (min (min v s) (min_of b as)) r"
      and rl: "r \<le> min v s" and rf: "finite_score r" by blast
    from sound_min_step[OF "6.prems"(4,5) sd False rs rl]
    have "sound lo hi (min v (min (minimax_value b') (min_of b as))) r" .
    moreover have "r \<le> v" using rl by simp
    ultimately show ?thesis using r rf False
      by (simp add: b' s min_of_simps t Let_def)
  qed
qed

lemma minimax_value_finite:
  assumes "x_turn b \<or> o_turn b"
  shows "finite_score (minimax_value b)"
proof -
  have lt: "NegInf < PosInf" by (simp add: less_score_def)
  have io: "iteration_order (id :: action_order)" by (simp add: iteration_order_def)
  from assms obtain r where "sound NegInf PosInf (minimax_value b) r" "finite_score r"
    using alpha_beta(1)[OF io _ lt, of b] alpha_beta(3)[OF io _ lt, of b] by blast
  moreover from this(2) have "NegInf < r" "r < PosInf"
    by (cases r; simp add: finite_score_def less_score_def)+
  ultimately show ?thesis by (auto simp: sound_def)
qed

lemma max_root_unpruned:
  assumes io: "iteration_order ord" and xt: "x_turn b"
  shows "set as \<subseteq> set (actions b) \<Longrightarrow> finite_score best \<or> best = NegInf \<Longrightarrow>
     max_root ord b as best mv best
       = Inr (first_best (\<lambda>s t. s > t) (map (\<lambda>a. (a, child_value b a)) as) best mv)"
proof (induction as arbitrary: best mv)
  case Nil
  show ?case by simp
next
  case (Cons a as)
  from Cons.prems(1) have ain: "a \<in> set (actions b)" and sub: "set as \<subseteq> set (actions b)" by auto
  from ain obtain b' where b': "result b a = Inr b'" by (auto simp: actions_result)
  have t: "child_value b a = minimax_value b'" by (simp add: child_value_def b')
  have lt: "best < PosInf" using Cons.prems(2) finite_score_bounds[of best]
    by (auto simp: less_score_def)
  from alpha_beta(3)[OF io x_turn_result[OF xt b'] lt] obtain s where
    s: "min_value ord b' best PosInf = Inr s" and sd: "sound best PosInf (minimax_value b') s"
    and fs: "finite_score s" by blast
  from finite_score_bounds[OF fs] sd have le: "minimax_value b' \<le> s" by (simp add: sound_def)
  show ?case
  proof (cases "best < s")
    case True
    with sd le have eq: "s = minimax_value b'" by (auto simp: sound_def)
    have m: "max best s = s" using True by (simp add: less_imp_le)
    from Cons.IH[OF sub, of s "Some a"] fs True show ?thesis
      by (simp add: b' s t m eq[symmetric])
  next
    case False
    with le have "\<not> best < minimax_value b'" by auto
    with Cons.IH[OF sub Cons.prems(2), of mv] False show ?thesis
      by (simp add: b' s t)
  qed
qed

lemma min_root_unpruned:
  assumes io: "iteration_order ord" and ot: "o_turn b"
  shows "set as \<subseteq> set (actions b) \<Longrightarrow> finite_score best \<or> best = PosInf \<Longrightarrow>
     min_root ord b as best mv best
       = Inr (first_best (\<lambda>s t. s < t) (map (\<lambda>a. (a, child_value b a)) as) best mv)"
proof (induction as arbitrary: best mv)
  case Nil
  show ?case by simp
next
  case (Cons a as)
  from Cons.prems(1) have ain: "a \<in> set (actions b)" and sub: "set as \<subseteq> set (actions b)" by auto
  from ain obtain b' where b': "result b a = Inr b'" by (auto simp: actions_result)
  have t: "child_value b a = minimax_value b'" by (simp add: child_value_def b')
  have lt: "NegInf < best" using Cons.prems(2) finite_score_bounds[of best]
    by (auto simp: less_score_def)
  from alpha_beta(1)[OF io o_turn_result[OF ot b'] lt] obtain s where
    s: "max_value ord b' NegInf best = Inr s" and sd: "sound NegInf best (minimax_value b') s"
    and fs: "finite_score s" by blast
  from finite_score_bounds[OF fs] sd have le: "s \<le> minimax_value b'" by (simp add: sound_def)
  show ?case
  proof (cases "s < best")
    case True
    with sd le have eq: "s = minimax_value b'" by (auto simp: sound_def)
    have m: "min best s = s" using True by (simp add: less_imp_le)
    from Cons.IH[OF sub, of s "Some a"] fs True show ?thesis
      by (simp add: b' s t m eq[symmetric])
  next
    case False
    with le have "\<not> minimax_value b' < best" by auto
    with Cons.IH[OF sub Cons.prems(2), of mv] False show ?thesis
      by (simp add: b' s t)
  qed
qed

lemma first_best_max:
  "first_best (\<lambda>s t. s > t) scored best mv = r \<Longrightarrow>
     (r = mv \<and> max best (foldr max (map snd scored) NegInf) = best)
     \<or> (\<exists>a. r = Some a \<and> (a, foldr max (map snd scored) NegInf) \<in> set scored
            \<and> best < foldr max (map snd scored) NegInf)"
proof (induction scored arbitrary: best mv)
  case Nil
  then show ?case by simp
next
  case (Cons x scored)
  obtain a s where x: "x = (a, s)" by (cases x)
  define m where "m = foldr max (map snd scored) NegInf"
  have M: "foldr max (map snd (x # scored)) NegInf = max s m" by (simp add: x m_def)
  show ?case
  proof (cases "best < s")
    case True
    with Cons.prems have "first_best (\<lambda>s t. s > t) scored s (Some a) = r" by (simp add: x)
    from Cons.IH[OF this, folded m_def]
    consider "r = Some a" "max s m = s" | a' where "r = Some a'" "(a', m) \<in> set scored" "s < m"
      by blast
    then show ?thesis
    proof cases
      case 1
      with True have "r = Some a \<and> (a, max s m) \<in> set (x # scored) \<and> best < max s m"
        by (simp add: x)
      then show ?thesis unfolding M by blast
    next
      case 2
      then have "max s m = m" by (simp add: less_imp_le)
      with 2 True have "r = Some a' \<and> (a', max s m) \<in> set (x # scored) \<and> best < max s m"
        by auto
      then show ?thesis unfolding M by blast
    qed
  next
    case False
    then have sb: "s \<le> best" by simp
    from False Cons.prems have "first_best (\<lambda>s t. s > t) scored best mv = r" by (simp add: x)
    from Cons.IH[OF this, folded m_def]
    consider "r = mv" "max best m = best" | a' where "r = Some a'" "(a', m) \<in> set scored" "best < m"
      by blast
    then show ?thesis
    proof cases
      case 1
      from 1(2) have "m \<le> best" by (metis max.cobounded2)
      with sb have "max best (max s m) = best" by simp
      with 1 show ?thesis unfolding M by blast
    next
      case 2
      with sb have "max s m = m" by simp
      with 2 have "r = Some a' \<and> (a', max s m) \<in> set (x # scored) \<and> best < max s m"
        by auto
      then show ?thesis unfolding M by blast
    qed
  qed
qed

lemma first_best_min:
  "first_best (\<lambda>s t. s < t) scored best mv = r \<Longrightarrow>
     (r = mv \<and> min best (foldr min (map snd scored) PosInf) = best)
     \<or> (\<exists>a. r = Some a \<and> (a, foldr min (map snd scored) PosInf) \<in> set scored
            \<and> foldr min (map snd scored) PosInf < best)"
proof (induction scored arbitrary: best mv)
  case Nil
  then show ?case by simp
next
  case (Cons x scored)
  obtain a s where x: "x = (a, s)" by (cases x)
  define m where "m = foldr min (map snd scored) PosInf"
  have M: "foldr min (map snd (x # scored)) PosInf = min s m" by (simp add: x m_def)
  show ?case
  proof (cases "s < best")
    case True
    with Cons.prems have "first_best (\<lambda>s t. s < t) scored s (Some a) = r" by (simp add: x)
    from Cons.IH[OF this, folded m_def]
    consider "r = Some a" "min s m = s" | a' where "r = Some a'" "(a', m) \<in> set scored" "m < s"
      by blast
    then show ?thesis
    proof cases
      case 1
      with True have "r = Some a \<and> (a, min s m) \<in> set (x # scored) \<and> min s m < best"
        by (simp add: x)
      then show ?thesis unfolding M by blast
    next
      case 2
      then have "min s m = m" by (simp add: less_imp_le)
      with 2 True have "r = Some a' \<and> (a', min s m) \<in> set (x # scored) \<and> min s m < best"
        by auto
      then show ?thesis unfolding M by blast
    qed
  next
    case False
    then have sb: "best \<le> s" by simp
    from False Cons.prems have "first_best (\<lambda>s t. s < t) scored best mv = r" by (simp add: x)
    from Cons.IH[OF this, folded m_def]
    consider "r = mv" "min best m = best" | a' where "r = Some a'" "(a', m) \<in> set scored" "m < best"
      by blast
    then show ?thesis
    proof cases
      case 1
      from 1(2) have "best \<le> m" by (metis min.cobounded2)
      with sb have "min best (min s m) = best" by simp
      with 1 show ?thesis unfolding M by blast
    next
      case 2
      with sb have "min s m = m" by simp
      with 2 have "r = Some a' \<and> (a', min s m) \<in> set (x # scored) \<and> min s m < best"
        by auto
      then show ?thesis unfolding M by blast
    qed
  qed
qed

lemma map_snd_scored: "map snd (map (\<lambda>a. (a, f a)) xs) = map f xs"
  by (induction xs) simp_all

lemma scored_member: "(a, s) \<in> set (map (\<lambda>a. (a, f a)) xs) \<Longrightarrow> a \<in> set xs \<and> s = f a"
  by auto

lemma pruned_is_unpruned:
  assumes "iteration_order ord" and "reachable b"
  shows "minimax ord b = Inr (unpruned_minimax ord b)
       \<and> (\<not> terminal b \<longrightarrow>
            (\<exists>a b'. minimax ord b = Inr (Some a) \<and> a \<in> set (actions b)
                \<and> result b a = Inr b' \<and> minimax_value b' = minimax_value b))"
proof (cases "terminal b")
  case True
  then show ?thesis by (simp add: minimax_def unpruned_minimax_def)
next
  case False
  note io = assms(1)
  let ?as = "ord (actions b)"
  let ?scored = "map (\<lambda>a. (a, child_value b a)) ?as"
  have sub: "set ?as \<subseteq> set (actions b)" by (simp add: iteration_order_set[OF io])
  from reachable_turn[OF assms(2)] have fin: "finite_score (minimax_value b)"
    by (rule minimax_value_finite)
  from reachable_turn[OF assms(2)]
  have "\<exists>a. minimax ord b = Inr (Some a) \<and> unpruned_minimax ord b = Some a
            \<and> a \<in> set ?as \<and> child_value b a = minimax_value b"
  proof
    assume xt: "x_turn b"
    have mm: "minimax ord b = Inr (first_best (\<lambda>s t. s > t) ?scored NegInf None)"
      using max_root_unpruned[OF io xt sub, of NegInf None] False
      by (simp add: minimax_def x_turn_player[OF xt])
    have up: "unpruned_minimax ord b = first_best (\<lambda>s t. s > t) ?scored NegInf None"
      using False by (simp add: unpruned_minimax_def x_turn_player[OF xt])
    have "foldr max (map snd ?scored) NegInf = max_of b ?as"
      unfolding map_snd_scored max_of_def ..
    then have M: "foldr max (map snd ?scored) NegInf = minimax_value b"
      by (simp add: minimax_value_x[OF False xt] max_of_order[OF io])
    from first_best_max[OF refl, of ?scored NegInf None, unfolded M] fin
    obtain a where "first_best (\<lambda>s t. s > t) ?scored NegInf None = Some a"
      "(a, minimax_value b) \<in> set ?scored"
      by (auto simp: finite_score_def)
    with scored_member[OF this(2)] mm up show ?thesis by auto
  next
    assume ot: "o_turn b"
    have mm: "minimax ord b = Inr (first_best (\<lambda>s t. s < t) ?scored PosInf None)"
      using min_root_unpruned[OF io ot sub, of PosInf None] False
      by (simp add: minimax_def o_turn_player[OF ot])
    have up: "unpruned_minimax ord b = first_best (\<lambda>s t. s < t) ?scored PosInf None"
      using False by (simp add: unpruned_minimax_def o_turn_player[OF ot])
    have "foldr min (map snd ?scored) PosInf = min_of b ?as"
      unfolding map_snd_scored min_of_def ..
    then have M: "foldr min (map snd ?scored) PosInf = minimax_value b"
      by (simp add: minimax_value_o[OF False ot] min_of_order[OF io])
    from first_best_min[OF refl, of ?scored PosInf None, unfolded M] fin
    obtain a where "first_best (\<lambda>s t. s < t) ?scored PosInf None = Some a"
      "(a, minimax_value b) \<in> set ?scored"
      by (auto simp: finite_score_def)
    with scored_member[OF this(2)] mm up show ?thesis by auto
  qed
  then obtain a where a: "minimax ord b = Inr (Some a)" "unpruned_minimax ord b = Some a"
    "a \<in> set ?as" "child_value b a = minimax_value b" by blast
  from a(3) have ain: "a \<in> set (actions b)" by (simp add: iteration_order_set[OF io])
  then obtain b' where b': "result b a = Inr b'" by (auto simp: actions_result)
  with a(4) have eq: "minimax_value b' = minimax_value b" by (simp add: child_value_def)
  have 2: "minimax ord b = Inr (unpruned_minimax ord b)" using a(1,2) by simp
  have 3: "\<exists>a b'. minimax ord b = Inr (Some a) \<and> a \<in> set (actions b)
                \<and> result b a = Inr b' \<and> minimax_value b' = minimax_value b"
    using a(1) ain b' eq by blast
  from 2 3 show ?thesis by blast
qed

lemma reachable_board_xxoo: "reachable board_xxoo"
proof -
  have 0: "reachable initial_state" by (rule reachable.initial)
  have 1: "reachable board_x"
    by (rule reachable.move[OF 0, of "(0, 0)"])
       (simp_all add: initial_state_def board_x_def terminal_def three_def actions_def
          cell_at_def result_def player_def)
  have 2: "reachable board_xo"
    by (rule reachable.move[OF 1, of "(1, 0)"])
       (simp_all add: board_x_def board_xo_def terminal_def three_def actions_def
          cell_at_def result_def player_def)
  have 3: "reachable board_xxo"
    by (rule reachable.move[OF 2, of "(0, 1)"])
       (simp_all add: board_xo_def board_xxo_def terminal_def three_def actions_def
          cell_at_def result_def player_def)
  show ?thesis
    by (rule reachable.move[OF 3, of "(1, 1)"])
       (simp_all add: board_xxo_def board_xxoo_def terminal_def three_def actions_def
          cell_at_def result_def player_def)
qed

text \<open>
  C3: \<^verbatim>\<open>minimax(board)\<close> returns none if and only if the board is terminal; on every
  non-terminal board reachable in legal play it returns a member of \<^verbatim>\<open>actions(board)\<close>
  whose value under unpruned full-depth minimax equals the optimal minimax value for the
  player to move, and the move is the one unpruned minimax returns: the pruned search
  gives the same result as the unpruned one, for every order in which the action sets are
  iterated.
\<close>

theorem minimax_optimal:
  assumes "iteration_order ord"
  shows "(minimax ord b = Inr None \<longleftrightarrow> terminal b)
       \<and> (reachable b \<longrightarrow>
            minimax ord b = Inr (unpruned_minimax ord b)
          \<and> (\<not> terminal b \<longrightarrow>
               (\<exists>a b'. minimax ord b = Inr (Some a) \<and> a \<in> set (actions b)
                   \<and> result b a = Inr b' \<and> minimax_value b' = minimax_value b)))"
proof -
  have 1: "minimax ord b = Inr None \<longleftrightarrow> terminal b"
  proof
    assume "minimax ord b = Inr None"
    with minimax_move[OF assms, of b] show "terminal b" by auto
  next
    assume "terminal b"
    then show "minimax ord b = Inr None" by (simp add: minimax_def)
  qed
  have 2: "minimax ord b = Inr (unpruned_minimax ord b)
          \<and> (\<not> terminal b \<longrightarrow>
               (\<exists>a b'. minimax ord b = Inr (Some a) \<and> a \<in> set (actions b)
                   \<and> result b a = Inr b' \<and> minimax_value b' = minimax_value b))"
    if "reachable b"
    by (rule pruned_is_unpruned[OF assms that])
  from 1 2 show ?thesis by blast
qed

theorem minimax_optimal_witness:
  "iteration_order (id :: action_order) \<and> reachable board_xxoo \<and> \<not> terminal board_xxoo
   \<and> minimax id board_xxoo \<noteq> Inr None
   \<and> minimax id board_xxoo = Inr (unpruned_minimax id board_xxoo)
   \<and> (\<exists>a b'. minimax id board_xxoo = Inr (Some a) \<and> a \<in> set (actions board_xxoo)
         \<and> result board_xxoo a = Inr b' \<and> minimax_value b' = minimax_value board_xxoo)"
proof -
  have h1: "iteration_order (id :: action_order)" by (rule iteration_order_id)
  have h2: "reachable board_xxoo" by (rule reachable_board_xxoo)
  have h3: "\<not> terminal board_xxoo" by (simp add: board_xxoo_def terminal_def three_def)
  from minimax_optimal[OF h1, of board_xxoo] h1 h2 h3 show ?thesis by blast
qed

end
